theory Spec2Isabelle
  imports Complex_Main "HOL-Library.Extended_Nat"
begin

chapter \<open>start-streaming: backoff, channel registry, topic broadcaster, reconnecting stream hook\<close>

text \<open>
  A shallow embedding of the TypeScript sources. JavaScript numbers are IEEE 754 binary64
  values with every operation rounded to nearest, object identities are natural numbers
  handed out by an allocation counter, mutable closures and React refs as fields of an explicit state record,
  and asynchronous code as a transition function over the events the JavaScript event loop
  can deliver. All definitions come first; the theorems follow in the second half.
\<close>

section \<open>JavaScript values\<close>

datatype jsval =
    JUndefined | JNull | JBool bool | JNum int | JStr string | JArr "jsval list" | JObj nat

text \<open>Truthiness as tested by \<^verbatim>\<open>if (x)\<close> and \<^verbatim>\<open>!x\<close>.\<close>

fun truthy :: "jsval \<Rightarrow> bool" where
  "truthy JUndefined = False"
| "truthy JNull = False"
| "truthy (JBool b) = b"
| "truthy (JNum n) = (n \<noteq> 0)"
| "truthy (JStr s) = (s \<noteq> [])"
| "truthy (JArr xs) = True"
| "truthy (JObj a) = True"

fun isArray :: "jsval \<Rightarrow> bool" where
  "isArray (JArr xs) = True"
| "isArray _ = False"

section \<open>JavaScript numbers\<close>

text \<open>
  A JavaScript number is an IEEE 754 binary64 value: a finite number \<open>m * 2 ^ e\<close> with
  \<open>\<bar>m\<bar> < 2 ^ 53\<close> and \<open>- 1074 \<le> e \<le> 971\<close>, \<^verbatim>\<open>Infinity\<close>, \<^verbatim>\<open>-Infinity\<close> or
  \<^verbatim>\<open>NaN\<close>. The two zeros are not told apart. An arithmetic operation on finite numbers
  returns the exact result rounded to the nearest such number, a tie going to the one with
  even \<open>m\<close>; a result that rounds to magnitude \<open>2 ^ 1024\<close> or more is an infinity.
\<close>

datatype double = Finite real | PosInf | NegInf | NaN

text \<open>
  \<open>bitlength n\<close> is the number of binary digits of a positive integer, \<open>ilog2 x\<close> is
  \<open>\<lfloor>log\<^sub>2 x\<rfloor>\<close> for \<open>x > 0\<close>, \<open>pow2 e\<close> is \<open>2 ^ e\<close> for an integer \<open>e\<close>, and
  \<open>pow2 (expo x)\<close> is the distance between neighbouring binary64 numbers around \<open>x\<close>.
\<close>

function bitlength :: "int \<Rightarrow> int" where
  "bitlength n = (if n \<le> 0 then 0 else bitlength (n div 2) + 1)"
  by pat_completeness auto

termination bitlength
  by (relation "measure nat") auto

declare bitlength.simps [simp del]

definition ilog2 :: "real \<Rightarrow> int" where
  "ilog2 x = (if 1 \<le> x then bitlength \<lfloor>x\<rfloor> - 1
              else - bitlength (\<lceil>1 / x\<rceil> - 1))"

definition pow2 :: "int \<Rightarrow> real" where
  "pow2 e = (if 0 \<le> e then 2 ^ nat e else 1 / 2 ^ nat (- e))"

definition expo :: "real \<Rightarrow> int" where
  "expo x = max (ilog2 \<bar>x\<bar> - 52) (- 1074)"

definition roundTiesToEven :: "real \<Rightarrow> int" where
  "roundTiesToEven y =
     (let f = \<lfloor>y\<rfloor>; d = y - of_int f
      in if d < 1 / 2 then f else if 1 / 2 < d then f + 1 else if even f then f else f + 1)"

definition nearest :: "real \<Rightarrow> real" where
  "nearest x =
     (if x = 0 then 0 else of_int (roundTiesToEven (x / pow2 (expo x))) * pow2 (expo x))"

text \<open>\<open>fl x\<close> is the number that stands for the exact result \<open>x\<close>.\<close>

definition fl :: "real \<Rightarrow> double" where
  "fl x = (let y = nearest x
           in if 2 ^ 1024 \<le> y then PosInf else if y \<le> - (2 ^ 1024) then NegInf else Finite y)"

text \<open>
  The comparison \<^verbatim>\<open><=\<close>, unary minus, and the operators \<^verbatim>\<open>*\<close>, \<^verbatim>\<open>+\<close> and
  \<^verbatim>\<open>-\<close>. Every comparison with \<^verbatim>\<open>NaN\<close> is false, and \<^verbatim>\<open>NaN\<close> operands,
  \<open>0 * \<infinity>\<close> and \<open>\<infinity> - \<infinity>\<close> give \<^verbatim>\<open>NaN\<close>.
\<close>

fun dle :: "double \<Rightarrow> double \<Rightarrow> bool" where
  "dle NaN b = False"
| "dle a NaN = False"
| "dle NegInf b = True"
| "dle a PosInf = True"
| "dle (Finite x) (Finite y) = (x \<le> y)"
| "dle a b = False"

fun dneg :: "double \<Rightarrow> double" where
  "dneg (Finite x) = Finite (- x)"
| "dneg PosInf = NegInf"
| "dneg NegInf = PosInf"
| "dneg NaN = NaN"

fun dsign :: "double \<Rightarrow> int" where
  "dsign (Finite x) = (if x < 0 then - 1 else if x = 0 then 0 else 1)"
| "dsign PosInf = 1"
| "dsign NegInf = - 1"
| "dsign NaN = 0"

fun dmul :: "double \<Rightarrow> double \<Rightarrow> double" where
  "dmul NaN b = NaN"
| "dmul a NaN = NaN"
| "dmul (Finite x) (Finite y) = fl (x * y)"
| "dmul a b = (if dsign a * dsign b = 0 then NaN
               else if 0 < dsign a * dsign b then PosInf else NegInf)"

fun dadd :: "double \<Rightarrow> double \<Rightarrow> double" where
  "dadd NaN b = NaN"
| "dadd a NaN = NaN"
| "dadd (Finite x) (Finite y) = fl (x + y)"
| "dadd PosInf NegInf = NaN"
| "dadd NegInf PosInf = NaN"
| "dadd PosInf b = PosInf"
| "dadd a PosInf = PosInf"
| "dadd NegInf b = NegInf"
| "dadd a NegInf = NegInf"

definition dsub :: "double \<Rightarrow> double \<Rightarrow> double" where
  "dsub a b = dadd a (dneg b)"

text \<open>
  \<^verbatim>\<open>Math.round\<close> returns the nearest integer, a tie going towards \<open>+\<infinity>\<close>; for a
  number it is exact. \<^verbatim>\<open>Math.min\<close> of two numbers is \<^verbatim>\<open>NaN\<close> when one of them is.
\<close>

fun Math_round :: "double \<Rightarrow> double" where
  "Math_round (Finite x) = Finite (of_int \<lfloor>x + 1 / 2\<rfloor>)"
| "Math_round a = a"

definition Math_min :: "double \<Rightarrow> double \<Rightarrow> double" where
  "Math_min a b = (if a = NaN \<or> b = NaN then NaN else if dle a b then a else b)"

section \<open>Backoff calculator (utils/exponentialBackoff.ts, utils/jitter.ts)\<close>

text \<open>
  \<^verbatim>\<open>const delay = baseDelay * 2 ** attempt; return Math.min(delay, maxDelay);\<close>
  The attempt is a non-negative integer, as the counter of the hook is; \<^verbatim>\<open>2 ** attempt\<close>
  is the power of two as a number, \<^verbatim>\<open>Infinity\<close> from attempt 1024 on.
\<close>

definition calculateBackoff :: "nat \<Rightarrow> double \<Rightarrow> double \<Rightarrow> double" where
  "calculateBackoff attempt baseDelay maxDelay =
     (let delay = dmul baseDelay (fl (2 ^ attempt)) in Math_min delay maxDelay)"

text \<open>
  \<^verbatim>\<open>const jitter = delay * jitterPercent * (Math.random() * 2 - 1); return Math.round(delay + jitter);\<close>
  The value returned by \<^verbatim>\<open>Math.random()\<close>, a number in \<open>[0, 1)\<close>, is passed in as the
  first argument \<open>rnd\<close>.
\<close>

definition addJitter :: "double \<Rightarrow> double \<Rightarrow> double \<Rightarrow> double" where
  "addJitter rnd delay jitterPercent =
     (let jitter = dmul (dmul delay jitterPercent) (dsub (dmul rnd (Finite 2)) (Finite 1))
      in Math_round (dadd delay jitter))"

text \<open>The optional \<^verbatim>\<open>jitterPercent\<close> defaults to 0.25.\<close>

definition calculateBackoffWithJitter ::
  "double \<Rightarrow> nat \<Rightarrow> double \<Rightarrow> double \<Rightarrow> double option \<Rightarrow> double" where
  "calculateBackoffWithJitter rnd attempt baseDelay maxDelay jitterPercent =
     (let jp = (case jitterPercent of None \<Rightarrow> Finite (1 / 4) | Some p \<Rightarrow> p);
          delay = dmul baseDelay (fl (2 ^ attempt));
          cappedDelay = Math_min delay maxDelay
      in addJitter rnd cappedDelay jp)"

section \<open>Channel manager (server/channel-manager.ts)\<close>

text \<open>
  A \<^verbatim>\<open>Channel\<close> object of the better-sse library is represented by its identity, a
  natural number; \<open>createChannel\<close> hands out the next unused one. The manager's
  \<^verbatim>\<open>Map<string, Channel>\<close> maps a key to such an identity, and \<open>activeSessions\<close>
  gives the session handles currently registered with each channel object (whether or not the
  map still refers to it). \<open>pushed\<close> records what \<^verbatim>\<open>channel.broadcast\<close> sent to
  which session.
\<close>

record 'e manager =
  keyPrefix :: string
  keySuffix :: string
  channels :: "string \<rightharpoonup> nat"
  activeSessions :: "nat \<Rightarrow> nat list"
  next_channel :: nat
  pushed :: "(nat \<times> 'e) list"

definition createSSEChannelManager :: "string \<Rightarrow> string \<Rightarrow> 'e manager" where
  "createSSEChannelManager prefix suffix =
     \<lparr>keyPrefix = prefix, keySuffix = suffix, channels = Map.empty,
      activeSessions = (\<lambda>_. []), next_channel = 0, pushed = []\<rparr>"

text \<open>\<^verbatim>\<open>parts.join(":")\<close>\<close>

fun join_colon :: "string list \<Rightarrow> string" where
  "join_colon [] = []"
| "join_colon [p] = p"
| "join_colon (p # q # ps) = p @ '':'' @ join_colon (q # ps)"

text \<open>\<^verbatim>\<open>[keyPrefix, resourceId, keySuffix].filter(Boolean).join(":")\<close>: empty strings are falsy.\<close>

definition buildChannelKey :: "'e manager \<Rightarrow> string \<Rightarrow> string" where
  "buildChannelKey m resourceId =
     (let parts = filter (\<lambda>p. p \<noteq> []) [keyPrefix m, resourceId, keySuffix m]
      in join_colon parts)"

definition createChannel :: "'e manager \<Rightarrow> nat \<times> 'e manager" where
  "createChannel m =
     (next_channel m,
      m\<lparr>activeSessions := (activeSessions m)(next_channel m := []),
        next_channel := Suc (next_channel m)\<rparr>)"

definition getChannel :: "string \<Rightarrow> 'e manager \<Rightarrow> nat \<times> 'e manager" where
  "getChannel resourceId m =
     (let channelKey = buildChannelKey m resourceId
      in case channels m channelKey of
           Some channel \<Rightarrow> (channel, m)
         | None \<Rightarrow>
             (let (channel, m') = createChannel m
              in (channel, m'\<lparr>channels := (channels m')(channelKey \<mapsto> channel)\<rparr>)))"

definition broadcast :: "nat \<Rightarrow> 'e \<Rightarrow> 'e manager \<Rightarrow> 'e manager" where
  "broadcast channel event m =
     m\<lparr>pushed := pushed m @ map (\<lambda>session. (session, event)) (activeSessions m channel)\<rparr>"

definition publish :: "string \<Rightarrow> 'e \<Rightarrow> 'e manager \<Rightarrow> 'e manager" where
  "publish resourceId event m =
     (let (channel, m') = getChannel resourceId m in broadcast channel event m')"

definition getSessionCount :: "string \<Rightarrow> 'e manager \<Rightarrow> nat" where
  "getSessionCount resourceId m =
     (let channelKey = buildChannelKey m resourceId
      in case channels m channelKey of
           None \<Rightarrow> 0
         | Some channel \<Rightarrow> length (activeSessions m channel))"

definition cleanupIfEmpty :: "string \<Rightarrow> 'e manager \<Rightarrow> 'e manager" where
  "cleanupIfEmpty resourceId m =
     (let channelKey = buildChannelKey m resourceId
      in case channels m channelKey of
           Some channel \<Rightarrow>
             if length (activeSessions m channel) = 0
             then m\<lparr>channels := (channels m)(channelKey := None)\<rparr>
             else m
         | None \<Rightarrow> m)"

text \<open>
  \<^verbatim>\<open>channel.register(session)\<close> and \<^verbatim>\<open>channel.deregister(session)\<close> are called by
  the route handler (server/route-factory.ts) on a channel it obtained from \<open>getChannel\<close>;
  a session is registered at most once.
\<close>

definition register :: "nat \<Rightarrow> nat \<Rightarrow> 'e manager \<Rightarrow> 'e manager" where
  "register channel session m =
     (if session \<in> set (activeSessions m channel) then m
      else m\<lparr>activeSessions :=
               (activeSessions m)(channel := activeSessions m channel @ [session])\<rparr>)"

definition deregister :: "nat \<Rightarrow> nat \<Rightarrow> 'e manager \<Rightarrow> 'e manager" where
  "deregister channel session m =
     m\<lparr>activeSessions :=
         (activeSessions m)(channel := removeAll session (activeSessions m channel))\<rparr>"

text \<open>Sequences of calls on one manager.\<close>

datatype 'e manager_op =
    GetChannel string
  | Publish string 'e
  | GetSessionCount string
  | CleanupIfEmpty string
  | Register nat nat
  | Deregister nat nat

fun apply_op :: "'e manager_op \<Rightarrow> 'e manager \<Rightarrow> 'e manager" where
  "apply_op (GetChannel r) m = snd (getChannel r m)"
| "apply_op (Publish r e) m = publish r e m"
| "apply_op (GetSessionCount r) m = m"
| "apply_op (CleanupIfEmpty r) m = cleanupIfEmpty r m"
| "apply_op (Register c s) m = register c s m"
| "apply_op (Deregister c s) m = deregister c s m"

fun run_ops :: "'e manager_op list \<Rightarrow> 'e manager \<Rightarrow> 'e manager" where
  "run_ops [] m = m"
| "run_ops (x # xs) m = run_ops xs (apply_op x m)"

text \<open>
  \<open>removes k x m\<close>: the call \<open>x\<close>, made in state \<open>m\<close>, is a \<open>cleanupIfEmpty\<close> that deletes
  the entry of key \<open>k\<close>. \<open>never_removed k xs m\<close>: no call of the sequence \<open>xs\<close> does.
\<close>

fun removes :: "string \<Rightarrow> 'e manager_op \<Rightarrow> 'e manager \<Rightarrow> bool" where
  "removes k (CleanupIfEmpty r) m =
     (buildChannelKey m r = k \<and>
      (case channels m k of Some channel \<Rightarrow> activeSessions m channel = [] | None \<Rightarrow> False))"
| "removes k _ m = False"

fun never_removed :: "string \<Rightarrow> 'e manager_op list \<Rightarrow> 'e manager \<Rightarrow> bool" where
  "never_removed k [] m = True"
| "never_removed k (x # xs) m = (\<not> removes k x m \<and> never_removed k xs (apply_op x m))"

text \<open>Every channel the map refers to has been created.\<close>

definition manager_wf :: "'e manager \<Rightarrow> bool" where
  "manager_wf m = (\<forall>k c. channels m k = Some c \<longrightarrow> c < next_channel m)"

section \<open>Query invalidation on SSE events (client/hooks/useSSEQueryInvalidation.ts)\<close>

text \<open>
  \<^verbatim>\<open>queryKeys\<close> is either a value or a function of the event; the value is an array
  (\<open>Some\<close>) or absent (\<open>None\<close>, JavaScript \<^verbatim>\<open>undefined\<close>). The handler's effect is the
  list of \<^verbatim>\<open>queryKey\<close> arguments it passes to \<^verbatim>\<open>queryClient.invalidateQueries\<close>, in
  call order; a \<^verbatim>\<open>TypeError\<close> is the left summand.
\<close>

datatype 'ev query_keys =
    StaticKeys "jsval list option"
  | DynamicKeys "'ev \<Rightarrow> jsval list option"

datatype js_error = TypeError

text \<open>\<^verbatim>\<open>typeof queryKeys === "function" ? queryKeys(event) : queryKeys\<close>\<close>

definition keysToInvalidate :: "'ev query_keys \<Rightarrow> 'ev \<Rightarrow> jsval list option" where
  "keysToInvalidate queryKeys event =
     (case queryKeys of DynamicKeys f \<Rightarrow> f event | StaticKeys k \<Rightarrow> k)"

text \<open>\<^verbatim>\<open>xs[0]\<close> on an array: \<^verbatim>\<open>undefined\<close> when the array is empty.\<close>

definition first_element :: "jsval list \<Rightarrow> jsval" where
  "first_element xs = (case xs of [] \<Rightarrow> JUndefined | x # _ \<Rightarrow> x)"

text \<open>
  The \<^verbatim>\<open>onEvent\<close> handler of the version with the SSR check and the guard
  \<^verbatim>\<open>if (!keysToInvalidate || keysToInvalidate.length === 0) return;\<close>
\<close>

definition useSSEQueryInvalidation_onEvent ::
  "bool \<Rightarrow> 'ev query_keys \<Rightarrow> 'ev \<Rightarrow> js_error + jsval list" where
  "useSSEQueryInvalidation_onEvent isClient queryKeys event =
     (if \<not> isClient then Inr []
      else case keysToInvalidate queryKeys event of
             None \<Rightarrow> Inr []
           | Some ks \<Rightarrow>
               if length ks = 0 then Inr []
               else let keyArray = (if isArray (first_element ks) then ks else [JArr ks])
                    in Inr keyArray)"

text \<open>
  The \<^verbatim>\<open>onEvent\<close> handler of the other version of the file, which has neither the SSR
  check nor the guard: indexing \<^verbatim>\<open>undefined\<close> throws.
\<close>

definition useSSEQueryInvalidation_onEvent_unguarded ::
  "'ev query_keys \<Rightarrow> 'ev \<Rightarrow> js_error + jsval list" where
  "useSSEQueryInvalidation_onEvent_unguarded queryKeys event =
     (case keysToInvalidate queryKeys event of
        None \<Rightarrow> Inl TypeError
      | Some ks \<Rightarrow>
          let keyArray = (if isArray (first_element ks) then ks else [JArr ks])
          in Inr keyArray)"

section \<open>Memory event broadcaster (server/events.ts)\<close>

text \<open>
  The broadcaster owns one Node.js \<^verbatim>\<open>EventEmitter\<close>. Each call of \<^verbatim>\<open>subscribe\<close>
  creates an async generator object; its closure variables (\<^verbatim>\<open>queue\<close>, \<^verbatim>\<open>resolveNext\<close>)
  and its control state are one \<open>subscription\<close> record, and the generator's listener function
  is identified with the index of that record.

  Control state of an async generator (ECMAScript): \<open>SuspendedStart\<close> (created, body not yet
  entered), \<open>SuspendedYield\<close> (stopped at \<^verbatim>\<open>yield\<close>), \<open>Executing\<close> (the body is serving a
  request; here it can only be parked at \<^verbatim>\<open>await new Promise(...)\<close>, because every other
  part of the body runs without suspension) and \<open>Completed\<close>. Calls of \<^verbatim>\<open>next()\<close> and
  \<^verbatim>\<open>return()\<close> made while the generator is executing are queued and served in order.
  \<open>results\<close> lists the settled results of the requests so far.
\<close>

datatype gen_state = SuspendedStart | SuspendedYield | Executing | Completed
datatype request = Next | Return
datatype iter_result = Yielded jsval | Done
datatype emit_error = UnhandledError jsval

record subscription =
  topic :: string
  gstate :: gen_state
  queue :: "jsval list"
  resolveNext :: bool
  woken :: bool
  requests :: "request list"
  results :: "iter_result list"

text \<open>
  \<open>resolveNext\<close> is \<open>True\<close> when the closure variable holds a resolver (is not
  \<^verbatim>\<open>null\<close>); \<open>woken\<close> is \<open>True\<close> when the promise the body awaits has been resolved
  and the body has not yet been resumed. \<open>listeners s c\<close> is the emitter's listener array
  for event name \<open>c\<close>, in registration order.
\<close>

record broadcaster =
  listeners :: "string \<Rightarrow> nat list"
  subs :: "subscription list"

definition createMemoryBroadcaster :: broadcaster where
  "createMemoryBroadcaster = \<lparr>listeners = (\<lambda>_. []), subs = []\<rparr>"

definition update_sub ::
  "nat \<Rightarrow> (subscription \<Rightarrow> subscription) \<Rightarrow> broadcaster \<Rightarrow> broadcaster" where
  "update_sub sid f s = s\<lparr>subs := (subs s)[sid := f (subs s ! sid)]\<rparr>"

text \<open>
  The listener: \<^verbatim>\<open>queue.push(data); if (resolveNext) { resolveNext(); resolveNext = null; }\<close>
\<close>

definition listener_push :: "jsval \<Rightarrow> subscription \<Rightarrow> subscription" where
  "listener_push data u =
     (let u1 = u\<lparr>queue := queue u @ [data]\<rparr>
      in if resolveNext u1 then u1\<lparr>woken := True, resolveNext := False\<rparr> else u1)"

definition listener :: "nat \<Rightarrow> jsval \<Rightarrow> broadcaster \<Rightarrow> broadcaster" where
  "listener sid data s = update_sub sid (listener_push data) s"

text \<open>
  \<^verbatim>\<open>EventEmitter\<close>, as documented for Node.js: \<^verbatim>\<open>emit\<close> calls the listeners of the
  event name synchronously in registration order, and throws when the event name is
  \<^verbatim>\<open>'error'\<close> and it has no listener. \<^verbatim>\<open>on\<close> first emits \<^verbatim>\<open>'newListener'\<close> with
  the event name, then appends the listener; \<^verbatim>\<open>off\<close> removes the most recently added
  instance of the listener and then emits \<^verbatim>\<open>'removeListener'\<close> with the event name.
\<close>

definition deliver :: "string \<Rightarrow> jsval \<Rightarrow> broadcaster \<Rightarrow> broadcaster" where
  "deliver channel data s = fold (\<lambda>sid. listener sid data) (listeners s channel) s"

definition emit :: "string \<Rightarrow> jsval \<Rightarrow> broadcaster \<Rightarrow> emit_error + broadcaster" where
  "emit channel data s =
     (if channel = ''error'' \<and> listeners s channel = [] then Inl (UnhandledError data)
      else Inr (deliver channel data s))"

definition remove_last :: "nat \<Rightarrow> nat list \<Rightarrow> nat list" where
  "remove_last x xs = rev (remove1 x (rev xs))"

definition emitter_on :: "string \<Rightarrow> nat \<Rightarrow> broadcaster \<Rightarrow> broadcaster" where
  "emitter_on channel sid s =
     (let s1 = (if listeners s ''newListener'' \<noteq> []
                then deliver ''newListener'' (JStr channel) s else s)
      in s1\<lparr>listeners := (listeners s1)(channel := listeners s1 channel @ [sid])\<rparr>)"

definition emitter_off :: "string \<Rightarrow> nat \<Rightarrow> broadcaster \<Rightarrow> broadcaster" where
  "emitter_off channel sid s =
     (if sid \<notin> set (listeners s channel) then s
      else let s1 = s\<lparr>listeners :=
                        (listeners s)(channel := remove_last sid (listeners s channel))\<rparr>
           in if listeners s1 ''removeListener'' \<noteq> []
              then deliver ''removeListener'' (JStr channel) s1 else s1)"

text \<open>
  One entry into \<^verbatim>\<open>while (true)\<close> up to the next suspension:
  \<^verbatim>\<open>if (queue.length > 0) { const event = queue.shift(); if (event) { yield event; } } else { await ... }\<close>.
  The result is the event to yield (or \<open>None\<close> when the body reaches the \<^verbatim>\<open>await\<close>) and
  the remaining queue.
\<close>

fun run_loop :: "jsval list \<Rightarrow> jsval option \<times> jsval list" where
  "run_loop [] = (None, [])"
| "run_loop (event # q) = (if truthy event then (Some event, q) else run_loop q)"

text \<open>
  Running the body while requests are pending. A \<open>Next\<close> at the head continues the loop;
  a yield settles that request and hands control to the following one. A \<open>Return\<close> that
  reaches the head is delivered at the \<^verbatim>\<open>yield\<close>, so the \<^verbatim>\<open>finally\<close> block runs and
  the generator completes; every request still queued then settles as done.
\<close>

fun pump :: "request list \<Rightarrow> jsval list \<Rightarrow> iter_result list
               \<Rightarrow> gen_state \<times> request list \<times> jsval list \<times> iter_result list" where
  "pump [] q res = (SuspendedYield, [], q, res)"
| "pump (Return # rs) q res = (Completed, [], q, res @ map (\<lambda>_. Done) (Return # rs))"
| "pump (Next # rs) q res =
     (case run_loop q of
        (None, q') \<Rightarrow> (Executing, Next # rs, q', res)
      | (Some event, q') \<Rightarrow> pump rs q' (res @ [Yielded event]))"

text \<open>
  Resuming the body of subscription \<open>sid\<close>. Parking at the \<^verbatim>\<open>await\<close> stores a new
  resolver in \<^verbatim>\<open>resolveNext\<close>; completing runs
  \<^verbatim>\<open>finally { emitter.off(channel, listener); }\<close>.
\<close>

definition resume :: "nat \<Rightarrow> broadcaster \<Rightarrow> broadcaster" where
  "resume sid s =
     (let u = subs s ! sid;
          (st, rs, q, res) = pump (requests u) (queue u) (results u);
          u' = u\<lparr>gstate := st, queue := q,
                 resolveNext := (if st = Executing then True else resolveNext u),
                 woken := False, requests := rs, results := res\<rparr>;
          s1 = update_sub sid (\<lambda>_. u') s
      in if st = Completed then emitter_off (topic u) sid s1 else s1)"

text \<open>\<^verbatim>\<open>subscribe(channel)\<close> only creates the generator object; it returns its index.\<close>

definition subscribe :: "string \<Rightarrow> broadcaster \<Rightarrow> nat \<times> broadcaster" where
  "subscribe channel s =
     (length (subs s),
      s\<lparr>subs := subs s @ [\<lparr>topic = channel, gstate = SuspendedStart, queue = [],
                            resolveNext = False, woken = False, requests = [], results = []\<rparr>]\<rparr>)"

text \<open>
  \<^verbatim>\<open>generator.next()\<close>. From \<open>SuspendedStart\<close> the body starts: it creates the empty
  queue, registers the listener with \<^verbatim>\<open>emitter.on(channel, listener)\<close> and enters the loop.
\<close>

definition gen_next :: "nat \<Rightarrow> broadcaster \<Rightarrow> broadcaster" where
  "gen_next sid s =
     (case gstate (subs s ! sid) of
        SuspendedStart \<Rightarrow>
          resume sid
            (emitter_on (topic (subs s ! sid)) sid
               (update_sub sid (\<lambda>u. u\<lparr>gstate := Executing, queue := [], resolveNext := False,
                                       requests := [Next]\<rparr>) s))
      | SuspendedYield \<Rightarrow>
          resume sid (update_sub sid (\<lambda>u. u\<lparr>gstate := Executing, requests := [Next]\<rparr>) s)
      | Executing \<Rightarrow> update_sub sid (\<lambda>u. u\<lparr>requests := requests u @ [Next]\<rparr>) s
      | Completed \<Rightarrow> update_sub sid (\<lambda>u. u\<lparr>results := results u @ [Done]\<rparr>) s)"

text \<open>
  \<^verbatim>\<open>generator.return()\<close>. A generator that never started completes without running any
  of its body; one stopped at \<^verbatim>\<open>yield\<close> runs its \<^verbatim>\<open>finally\<close> block; one that is
  executing only queues the request.
\<close>

definition gen_return :: "nat \<Rightarrow> broadcaster \<Rightarrow> broadcaster" where
  "gen_return sid s =
     (case gstate (subs s ! sid) of
        SuspendedStart \<Rightarrow>
          update_sub sid (\<lambda>u. u\<lparr>gstate := Completed, results := results u @ [Done]\<rparr>) s
      | SuspendedYield \<Rightarrow>
          resume sid (update_sub sid (\<lambda>u. u\<lparr>gstate := Executing, requests := [Return]\<rparr>) s)
      | Executing \<Rightarrow> update_sub sid (\<lambda>u. u\<lparr>requests := requests u @ [Return]\<rparr>) s
      | Completed \<Rightarrow> update_sub sid (\<lambda>u. u\<lparr>results := results u @ [Done]\<rparr>) s)"

text \<open>
  The 30 s timer of the promise the body currently awaits fires
  (\<^verbatim>\<open>setTimeout(resolve, 30000)\<close>): the promise is resolved, \<^verbatim>\<open>resolveNext\<close> is left as
  it is. Timers of promises that are already resolved have no effect.
\<close>

definition keepalive_timeout :: "nat \<Rightarrow> broadcaster \<Rightarrow> broadcaster" where
  "keepalive_timeout sid s =
     (if gstate (subs s ! sid) = Executing \<and> \<not> woken (subs s ! sid)
      then update_sub sid (\<lambda>u. u\<lparr>woken := True\<rparr>) s else s)"

text \<open>The event loop resumes a body whose awaited promise has been resolved.\<close>

definition wake :: "nat \<Rightarrow> broadcaster \<Rightarrow> broadcaster" where
  "wake sid s =
     (if gstate (subs s ! sid) = Executing \<and> woken (subs s ! sid) then resume sid s else s)"

text \<open>\<^verbatim>\<open>publish(channel, data) { emitter.emit(channel, data); }\<close>\<close>

definition broadcaster_publish ::
  "string \<Rightarrow> jsval \<Rightarrow> broadcaster \<Rightarrow> emit_error + broadcaster" where
  "broadcaster_publish channel data s = emit channel data s"

definition getListenerCount :: "string \<Rightarrow> broadcaster \<Rightarrow> nat" where
  "getListenerCount channel s = length (listeners s channel)"

text \<open>
  Sequences of calls and event-loop turns on one broadcaster; an exception ends the run.
  A generator object exists only as the result of \<^verbatim>\<open>subscribe\<close>, so a step that names
  no existing generator does nothing.
\<close>

datatype action =
    DoSubscribe string
  | DoNext nat
  | DoReturn nat
  | DoPublish string jsval
  | DoKeepAlive nat
  | DoWake nat

fun act :: "action \<Rightarrow> broadcaster \<Rightarrow> emit_error + broadcaster" where
  "act (DoSubscribe c) s = Inr (snd (subscribe c s))"
| "act (DoNext i) s = Inr (if i < length (subs s) then gen_next i s else s)"
| "act (DoReturn i) s = Inr (if i < length (subs s) then gen_return i s else s)"
| "act (DoPublish c d) s = broadcaster_publish c d s"
| "act (DoKeepAlive i) s = Inr (if i < length (subs s) then keepalive_timeout i s else s)"
| "act (DoWake i) s = Inr (if i < length (subs s) then wake i s else s)"

fun run :: "action list \<Rightarrow> broadcaster \<Rightarrow> emit_error + broadcaster" where
  "run [] s = Inr s"
| "run (a # as) s = (case act a s of Inl e \<Rightarrow> Inl e | Inr s' \<Rightarrow> run as s')"

text \<open>
  Consistency of a broadcaster state: a listener array has no duplicates and holds exactly
  the subscriptions on that event name whose body has started and not completed.
\<close>

definition started :: "subscription \<Rightarrow> bool" where
  "started u = (gstate u = Executing \<or> gstate u = SuspendedYield)"

definition broadcaster_wf :: "broadcaster \<Rightarrow> bool" where
  "broadcaster_wf s =
     ((\<forall>c. distinct (listeners s c)) \<and>
      (\<forall>c. \<forall>i \<in> set (listeners s c).
          i < length (subs s) \<and> topic (subs s ! i) = c \<and> started (subs s ! i)) \<and>
      (\<forall>i < length (subs s).
          started (subs s ! i) \<longrightarrow> i \<in> set (listeners s (topic (subs s ! i)))))"

section \<open>Auto-reconnecting stream hook (client/hooks/useAutoReconnectStream.ts)\<close>

text \<open>
  The options of one render. \<open>streamFn p k\<close> is what the \<open>k\<close>-th invocation of
  \<^verbatim>\<open>streamFn(params)\<close> (counted over the life of the hook) does: throw synchronously,
  return an async generator, or return a promise that is settled later by the environment.
  \<open>maxRetries\<close> may be \<^verbatim>\<open>Infinity\<close> (\<open>\<infinity>\<close>, the default). \<open>externalSignal\<close> is the
  identity of the caller's \<^verbatim>\<open>AbortSignal\<close>, if any. \<open>identity\<close> stands for the object
  identities of \<^verbatim>\<open>streamFn\<close>, \<^verbatim>\<open>params\<close>, \<^verbatim>\<open>shouldRetry\<close> and the callbacks,
  which React compares with \<^verbatim>\<open>Object.is\<close> in the effect's dependency list: two renders
  pass the same objects exactly when the numbers agree.
\<close>

datatype fn_outcome = ThrowsSync string | ReturnsGenerator | ReturnsPromise

record props =
  streamFn :: "nat \<Rightarrow> fn_outcome"
  maxRetries :: enat
  baseDelay :: double
  maxDelay :: double
  enabled :: bool
  pauseOnHidden :: bool
  shouldRetry :: "(string \<Rightarrow> nat \<Rightarrow> bool) option"
  externalSignal :: "nat option"
  identity :: nat

text \<open>
  The places where the hook invokes a caller-supplied callback, with the arguments passed
  (an optional callback that was not supplied is simply not called there). Callbacks are
  assumed not to throw.
\<close>

datatype callback =
    OnConnect
  | OnDisconnect
  | OnError string nat
  | OnMaxRetriesReached string
  | OnData jsval nat

text \<open>
  One run of the effect: its closure variable \<^verbatim>\<open>isMounted\<close> and the options and
  \<^verbatim>\<open>shouldStream\<close> value it captured.
\<close>

record effect_inst =
  isMounted :: bool
  options :: props
  shouldStream :: bool

text \<open>
  A call of \<^verbatim>\<open>connectToStream\<close> that is suspended: at \<^verbatim>\<open>await streamResult\<close>
  (\<open>AwaitingStream\<close>) or inside \<^verbatim>\<open>for await\<close> (\<open>Iterating\<close>). \<open>owner\<close> is the effect
  run whose closure it is, \<open>controller\<close> the \<^verbatim>\<open>AbortController\<close> it created.
\<close>

datatype conn_phase = AwaitingStream | Iterating

record connection =
  owner :: nat
  controller :: nat
  cphase :: conn_phase

text \<open>
  The dependency list, as far as it can change: \<^verbatim>\<open>shouldStream\<close>, \<^verbatim>\<open>baseDelay\<close>,
  \<^verbatim>\<open>externalSignal\<close>, \<^verbatim>\<open>maxDelay\<close>, \<^verbatim>\<open>maxRetries\<close> and the identities.
\<close>

type_synonym deps = "bool \<times> double \<times> nat option \<times> double \<times> enat \<times> nat"

text \<open>
  The state of one mounted hook: the four \<^verbatim>\<open>useState\<close> cells, the three refs, the
  \<^verbatim>\<open>isVisible\<close> cell of \<^verbatim>\<open>usePageVisibility\<close>, and what the runtime holds: the last
  rendered options and dependency list, the effect runs so far, which abort controllers and
  external signals are aborted, the pending timers (owner effect and delay), the suspended
  \<^verbatim>\<open>connectToStream\<close> calls, the number of \<^verbatim>\<open>streamFn\<close> invocations, the results of
  successive \<^verbatim>\<open>Math.random()\<close> calls, and the callback invocations so far.
  Timer handles and controllers are numbered in creation order; a timer handle is always
  truthy.
\<close>

record hook_state =
  isConnected :: bool
  isReconnecting :: bool
  reconnectAttempt :: nat
  error :: "string option"
  abortControllerRef :: "nat option"
  reconnectTimeoutRef :: "nat option"
  currentAttemptRef :: nat
  isVisible :: bool
  rendered :: "props option"
  lastDeps :: "deps option"
  effects :: "effect_inst list"
  aborted :: "nat \<Rightarrow> bool"
  externalAborted :: "nat \<Rightarrow> bool"
  controllersMade :: nat
  timers :: "nat \<rightharpoonup> nat \<times> double"
  timersMade :: nat
  connections :: "nat \<rightharpoonup> connection"
  streamCalls :: nat
  randoms :: "nat \<Rightarrow> double"
  randomCalls :: nat
  calls :: "callback list"

text \<open>
  Before the first render. \<open>visible\<close> is \<^verbatim>\<open>!document.hidden\<close> (\<open>True\<close> where there is
  no document).
\<close>

definition initial :: "bool \<Rightarrow> (nat \<Rightarrow> double) \<Rightarrow> hook_state" where
  "initial visible rnd =
     \<lparr>isConnected = False, isReconnecting = False, reconnectAttempt = 0, error = None,
      abortControllerRef = None, reconnectTimeoutRef = None, currentAttemptRef = 0,
      isVisible = visible, rendered = None, lastDeps = None, effects = [],
      aborted = (\<lambda>_. False), externalAborted = (\<lambda>_. False), controllersMade = 0,
      timers = Map.empty, timersMade = 0, connections = Map.empty, streamCalls = 0,
      randoms = rnd, randomCalls = 0, calls = []\<rparr>"

text \<open>
  Reading the closure of effect run \<open>eff\<close>. A closure always belongs to an effect that has
  run, so the index is in range wherever the hook reads it.
\<close>

definition is_mounted :: "hook_state \<Rightarrow> nat \<Rightarrow> bool" where
  "is_mounted s eff = (eff < length (effects s) \<and> isMounted (effects s ! eff))"

definition should_stream :: "hook_state \<Rightarrow> nat \<Rightarrow> bool" where
  "should_stream s eff = (eff < length (effects s) \<and> shouldStream (effects s ! eff))"

definition options_of :: "hook_state \<Rightarrow> nat \<Rightarrow> props" where
  "options_of s eff = options (effects s ! eff)"

text \<open>
  \<^verbatim>\<open>combinedSignal.aborted\<close>: the connection's own controller, or the external signal
  when there is one (\<^verbatim>\<open>AbortSignal.any\<close>).
\<close>

definition combinedSignal_aborted :: "hook_state \<Rightarrow> nat \<Rightarrow> nat \<Rightarrow> bool" where
  "combinedSignal_aborted s eff ctrl =
     (aborted s ctrl \<or>
      (case externalSignal (options_of s eff) of
         None \<Rightarrow> False | Some x \<Rightarrow> externalAborted s x))"

text \<open>\<^verbatim>\<open>abortControllerRef.current?.abort()\<close>\<close>

definition abort_current :: "hook_state \<Rightarrow> hook_state" where
  "abort_current s =
     (case abortControllerRef s of
        None \<Rightarrow> s | Some c \<Rightarrow> s\<lparr>aborted := (aborted s)(c := True)\<rparr>)"

text \<open>
  \<^verbatim>\<open>if (reconnectTimeoutRef.current) { clearTimeout(reconnectTimeoutRef.current); }\<close>
\<close>

definition clear_reconnect_timeout :: "hook_state \<Rightarrow> hook_state" where
  "clear_reconnect_timeout s =
     (case reconnectTimeoutRef s of
        None \<Rightarrow> s | Some t \<Rightarrow> s\<lparr>timers := (timers s)(t := None)\<rparr>)"

definition scheduleReconnect :: "nat \<Rightarrow> hook_state \<Rightarrow> hook_state" where
  "scheduleReconnect eff s =
     (let s1 = s\<lparr>isReconnecting := True, currentAttemptRef := currentAttemptRef s + 1\<rparr>;
          delay = calculateBackoffWithJitter (randoms s1 (randomCalls s1)) (currentAttemptRef s1)
                    (baseDelay (options_of s1 eff)) (maxDelay (options_of s1 eff)) (Some (Finite (1 / 4)));
          t = timersMade s1
      in s1\<lparr>randomCalls := randomCalls s1 + 1, reconnectTimeoutRef := Some t,
             timers := (timers s1)(t \<mapsto> (eff, delay)), timersMade := t + 1\<rparr>)"

text \<open>The \<^verbatim>\<open>catch (err)\<close> block of \<^verbatim>\<open>connectToStream\<close>.\<close>

definition handle_error :: "nat \<Rightarrow> nat \<Rightarrow> string \<Rightarrow> hook_state \<Rightarrow> hook_state" where
  "handle_error eff ctrl err s =
     (if \<not> is_mounted s eff \<or> combinedSignal_aborted s eff ctrl then s
      else
        let s1 = s\<lparr>error := Some err, isConnected := False,
                   calls := calls s @ [OnDisconnect, OnError err (currentAttemptRef s)]\<rparr>;
            customShouldRetry =
              (case shouldRetry (options_of s1 eff) of
                 None \<Rightarrow> True | Some f \<Rightarrow> f err (currentAttemptRef s1));
            belowMaxRetries = (enat (currentAttemptRef s1) < maxRetries (options_of s1 eff))
        in if customShouldRetry \<and> belowMaxRetries \<and> should_stream s1 eff
           then scheduleReconnect eff s1
           else if \<not> belowMaxRetries
           then s1\<lparr>calls := calls s1 @ [OnMaxRetriesReached err]\<rparr>
           else s1)"

text \<open>
  After the stream has been obtained: \<^verbatim>\<open>setIsConnected(true); setIsReconnecting(false);
  setReconnectAttempt(currentAttemptRef.current); onConnect?.();\<close> and the call suspends in
  \<^verbatim>\<open>for await\<close>.
\<close>

definition stream_opened :: "nat \<Rightarrow> nat \<Rightarrow> nat \<Rightarrow> hook_state \<Rightarrow> hook_state" where
  "stream_opened cid eff ctrl s =
     s\<lparr>isConnected := True, isReconnecting := False, reconnectAttempt := currentAttemptRef s,
       calls := calls s @ [OnConnect],
       connections := (connections s)
         (cid \<mapsto> \<lparr>owner = eff, controller = ctrl, cphase = Iterating\<rparr>)\<rparr>"

text \<open>The code after the \<^verbatim>\<open>for await\<close> loop (stream ended, or the loop was left by \<^verbatim>\<open>break\<close>).\<close>

definition after_loop :: "nat \<Rightarrow> nat \<Rightarrow> hook_state \<Rightarrow> hook_state" where
  "after_loop eff ctrl s =
     (if is_mounted s eff \<and> \<not> combinedSignal_aborted s eff ctrl \<and> should_stream s eff
      then scheduleReconnect eff (s\<lparr>isConnected := False, calls := calls s @ [OnDisconnect]\<rparr>)
      else s)"

text \<open>\<^verbatim>\<open>connectToStream\<close> up to its first suspension.\<close>

definition connectToStream :: "nat \<Rightarrow> hook_state \<Rightarrow> hook_state" where
  "connectToStream eff s =
     (if \<not> should_stream s eff then s
      else
        let ctrl = controllersMade s;
            s1 = s\<lparr>abortControllerRef := Some ctrl, controllersMade := ctrl + 1\<rparr>;
            s2 = s1\<lparr>isConnected := False, error := None\<rparr>;
            cid = streamCalls s2;
            streamResult = streamFn (options_of s2 eff) cid;
            s3 = s2\<lparr>streamCalls := cid + 1\<rparr>
        in case streamResult of
             ThrowsSync err \<Rightarrow> handle_error eff ctrl err s3
           | ReturnsPromise \<Rightarrow>
               s3\<lparr>connections := (connections s3)
                     (cid \<mapsto> \<lparr>owner = eff, controller = ctrl, cphase = AwaitingStream\<rparr>)\<rparr>
           | ReturnsGenerator \<Rightarrow> stream_opened cid eff ctrl s3)"

text \<open>The cleanup function returned by the effect.\<close>

definition effect_cleanup :: "nat \<Rightarrow> hook_state \<Rightarrow> hook_state" where
  "effect_cleanup eff s =
     clear_reconnect_timeout
       (abort_current
          (s\<lparr>effects := (effects s)[eff := (effects s ! eff)\<lparr>isMounted := False\<rparr>]\<rparr>))"

text \<open>The effect body: a new closure, then the initial connection or the else branch.\<close>

definition effect_body :: "props \<Rightarrow> bool \<Rightarrow> hook_state \<Rightarrow> hook_state" where
  "effect_body p ss s =
     (let eff = length (effects s);
          s1 = s\<lparr>effects := effects s @ [\<lparr>isMounted = True, options = p, shouldStream = ss\<rparr>]\<rparr>
      in if ss then connectToStream eff s1
         else abort_current (s1\<lparr>isConnected := False, isReconnecting := False\<rparr>))"

text \<open>
  \<^verbatim>\<open>const shouldStream = enabled && (!pauseOnHidden || isVisible);\<close> and the
  effect's dependency list for a render with options \<open>p\<close>.
\<close>

definition shouldStream_of :: "props \<Rightarrow> bool \<Rightarrow> bool" where
  "shouldStream_of p visible = (enabled p \<and> (\<not> pauseOnHidden p \<or> visible))"

definition deps_of :: "props \<Rightarrow> bool \<Rightarrow> deps" where
  "deps_of p visible =
     (shouldStream_of p visible, baseDelay p, externalSignal p, maxDelay p, maxRetries p,
      identity p)"

text \<open>
  One render of the hook with options \<open>p\<close>, followed by React's commit: when a dependency
  differs from the previous render (or on the first render) the previous effect's cleanup
  runs and then the effect body; otherwise neither runs.
\<close>

definition render :: "props \<Rightarrow> hook_state \<Rightarrow> hook_state" where
  "render p s =
     (let ss = shouldStream_of p (isVisible s);
          d = deps_of p (isVisible s);
          s1 = s\<lparr>rendered := Some p\<rparr>
      in if lastDeps s1 = Some d then s1
         else
           let s2 = (if effects s1 = [] then s1
                     else effect_cleanup (length (effects s1) - 1) s1)
           in effect_body p ss (s2\<lparr>lastDeps := Some d\<rparr>))"

text \<open>A re-render caused by a state change inside the hook: the options are the same objects.\<close>

definition rerender :: "hook_state \<Rightarrow> hook_state" where
  "rerender s = (case rendered s of None \<Rightarrow> s | Some p \<Rightarrow> render p s)"

text \<open>The returned \<^verbatim>\<open>reconnect\<close> function.\<close>

definition reconnect :: "hook_state \<Rightarrow> hook_state" where
  "reconnect s =
     (let s1 = abort_current s;
          s2 = clear_reconnect_timeout s1
      in s2\<lparr>currentAttemptRef := 0, reconnectAttempt := 0, error := None\<rparr>)"

text \<open>
  \<^verbatim>\<open>usePageVisibility\<close>: the \<^verbatim>\<open>visibilitychange\<close> handler runs
  \<^verbatim>\<open>setIsVisible(!document.hidden)\<close>; a changed value re-renders the hook.
\<close>

definition handleVisibilityChange :: "bool \<Rightarrow> hook_state \<Rightarrow> hook_state" where
  "handleVisibilityChange hidden s =
     (if isVisible s = (\<not> hidden) then s else rerender (s\<lparr>isVisible := \<not> hidden\<rparr>))"

text \<open>
  The timer callback of \<^verbatim>\<open>scheduleReconnect\<close>:
  \<^verbatim>\<open>if (isMounted && shouldStream) { connectToStream(); }\<close>. A cleared timer never fires.
\<close>

definition timer_fired :: "nat \<Rightarrow> hook_state \<Rightarrow> hook_state" where
  "timer_fired t s =
     (case timers s t of
        None \<Rightarrow> s
      | Some (eff, delay) \<Rightarrow>
          let s1 = s\<lparr>timers := (timers s)(t := None)\<rparr>
          in if is_mounted s1 eff \<and> should_stream s1 eff then connectToStream eff s1 else s1)"

text \<open>The promise returned by \<^verbatim>\<open>streamFn\<close> is fulfilled with a generator, or rejected.\<close>

definition promise_resolved :: "nat \<Rightarrow> hook_state \<Rightarrow> hook_state" where
  "promise_resolved cid s =
     (case connections s cid of
        None \<Rightarrow> s
      | Some c \<Rightarrow>
          if cphase c = AwaitingStream then stream_opened cid (owner c) (controller c) s
          else s)"

definition promise_rejected :: "nat \<Rightarrow> string \<Rightarrow> hook_state \<Rightarrow> hook_state" where
  "promise_rejected cid err s =
     (case connections s cid of
        None \<Rightarrow> s
      | Some c \<Rightarrow>
          if cphase c = AwaitingStream
          then handle_error (owner c) (controller c) err
                 (s\<lparr>connections := (connections s)(cid := None)\<rparr>)
          else s)"

text \<open>
  The stream yields an item: the loop body checks
  \<^verbatim>\<open>if (!isMounted || combinedSignal.aborted) break;\<close> and otherwise calls
  \<^verbatim>\<open>onData(event, { reconnectAttempt: currentAttemptRef.current })\<close>.
\<close>

definition stream_item :: "nat \<Rightarrow> jsval \<Rightarrow> hook_state \<Rightarrow> hook_state" where
  "stream_item cid event s =
     (case connections s cid of
        None \<Rightarrow> s
      | Some c \<Rightarrow>
          if cphase c \<noteq> Iterating then s
          else if \<not> is_mounted s (owner c) \<or> combinedSignal_aborted s (owner c) (controller c)
          then after_loop (owner c) (controller c)
                 (s\<lparr>connections := (connections s)(cid := None)\<rparr>)
          else s\<lparr>calls := calls s @ [OnData event (currentAttemptRef s)]\<rparr>)"

text \<open>The stream ends, or iterating it throws.\<close>

definition stream_ended :: "nat \<Rightarrow> hook_state \<Rightarrow> hook_state" where
  "stream_ended cid s =
     (case connections s cid of
        None \<Rightarrow> s
      | Some c \<Rightarrow>
          if cphase c \<noteq> Iterating then s
          else after_loop (owner c) (controller c)
                 (s\<lparr>connections := (connections s)(cid := None)\<rparr>))"

definition stream_threw :: "nat \<Rightarrow> string \<Rightarrow> hook_state \<Rightarrow> hook_state" where
  "stream_threw cid err s =
     (case connections s cid of
        None \<Rightarrow> s
      | Some c \<Rightarrow>
          if cphase c \<noteq> Iterating then s
          else handle_error (owner c) (controller c) err
                 (s\<lparr>connections := (connections s)(cid := None)\<rparr>))"

text \<open>The caller aborts its external signal.\<close>

definition external_abort :: "nat \<Rightarrow> hook_state \<Rightarrow> hook_state" where
  "external_abort x s = s\<lparr>externalAborted := (externalAborted s)(x := True)\<rparr>"

text \<open>
  Everything that can happen to a mounted hook. \<open>Reconnect\<close> is a call of the returned
  \<^verbatim>\<open>reconnect()\<close> followed by the re-render its state updates cause.
\<close>

datatype hook_event =
    Render props
  | VisibilityChange bool
  | Reconnect
  | TimerFired nat
  | PromiseResolved nat
  | PromiseRejected nat string
  | StreamItem nat jsval
  | StreamEnded nat
  | StreamThrew nat string
  | ExternalAbort nat

fun step :: "hook_event \<Rightarrow> hook_state \<Rightarrow> hook_state" where
  "step (Render p) s = render p s"
| "step (VisibilityChange hidden) s = handleVisibilityChange hidden s"
| "step Reconnect s = rerender (reconnect s)"
| "step (TimerFired t) s = timer_fired t s"
| "step (PromiseResolved cid) s = promise_resolved cid s"
| "step (PromiseRejected cid err) s = promise_rejected cid err s"
| "step (StreamItem cid event) s = stream_item cid event s"
| "step (StreamEnded cid) s = stream_ended cid s"
| "step (StreamThrew cid err) s = stream_threw cid err s"
| "step (ExternalAbort x) s = external_abort x s"

fun run_events :: "hook_event list \<Rightarrow> hook_state \<Rightarrow> hook_state" where
  "run_events [] s = s"
| "run_events (e # es) s = run_events es (step e s)"

text \<open>
  The controller states of the specification, read off the hook's state. A connection or
  timer is live when the effect run that owns it is still mounted and streaming and (for a
  connection) its signal is not aborted, so that its continuation will act.
\<close>

datatype phase = Idle | Connecting | Connected | Reconnecting | Stopped

definition live_connection :: "hook_state \<Rightarrow> conn_phase \<Rightarrow> nat \<Rightarrow> bool" where
  "live_connection s ph cid =
     (case connections s cid of
        None \<Rightarrow> False
      | Some c \<Rightarrow> cphase c = ph \<and> is_mounted s (owner c) \<and> should_stream s (owner c)
                  \<and> \<not> combinedSignal_aborted s (owner c) (controller c))"

definition live_timer :: "hook_state \<Rightarrow> nat \<Rightarrow> bool" where
  "live_timer s t =
     (case timers s t of
        None \<Rightarrow> False
      | Some (eff, delay) \<Rightarrow> is_mounted s eff \<and> should_stream s eff)"

definition phase_of :: "hook_state \<Rightarrow> phase" where
  "phase_of s =
     (if \<not> (\<exists>eff < length (effects s). is_mounted s eff \<and> should_stream s eff) then Idle
      else if \<exists>cid < streamCalls s. live_connection s AwaitingStream cid then Connecting
      else if \<exists>cid < streamCalls s. live_connection s Iterating cid then Connected
      else if \<exists>t < timersMade s. live_timer s t then Reconnecting
      else Stopped)"

text \<open>Events of the environment alone: no render, no visibility change, no \<^verbatim>\<open>reconnect()\<close>.\<close>

fun environment_event :: "hook_event \<Rightarrow> bool" where
  "environment_event (Render p) = False"
| "environment_event (VisibilityChange hidden) = False"
| "environment_event Reconnect = False"
| "environment_event _ = True"



text \<open>
  What holds in every state the hook can reach: the stored dependency list is that of the
  last render at the current visibility, and an effect has run once the hook has rendered;
  every effect run but the latest has been cleaned up; only controllers that exist are
  aborted or referred to; and a suspended connection or a pending timer belongs to an effect
  run that was streaming.
\<close>

definition hook_inv :: "hook_state \<Rightarrow> bool" where
  "hook_inv s =
     ((case rendered s of
         None \<Rightarrow> lastDeps s = None \<and> effects s = []
       | Some p \<Rightarrow> lastDeps s = Some (deps_of p (isVisible s)) \<and> effects s \<noteq> [])
      \<and> (\<forall>i. Suc i < length (effects s) \<longrightarrow> \<not> isMounted (effects s ! i))
      \<and> (\<forall>c. aborted s c \<longrightarrow> c < controllersMade s)
      \<and> (\<forall>c. abortControllerRef s = Some c \<longrightarrow> c < controllersMade s)
      \<and> (\<forall>cid c. connections s cid = Some c \<longrightarrow> should_stream s (owner c))
      \<and> (\<forall>t eff d. timers s t = Some (eff, d) \<longrightarrow> should_stream s eff))"

text \<open>
  \<open>hook_frame s s'\<close>: from \<open>s\<close> to \<open>s'\<close> no render and no effect has run and no
  controller was aborted; controllers, connections and timers were at most added, the latter
  two for effect runs that were streaming. \<open>quiescent s\<close>: no effect run is both mounted
  and streaming.
\<close>

definition hook_frame :: "hook_state \<Rightarrow> hook_state \<Rightarrow> bool" where
  "hook_frame s s' =
     (rendered s' = rendered s \<and> lastDeps s' = lastDeps s \<and> isVisible s' = isVisible s
      \<and> effects s' = effects s \<and> aborted s' = aborted s
      \<and> controllersMade s \<le> controllersMade s'
      \<and> (\<forall>c. abortControllerRef s' = Some c \<longrightarrow>
             abortControllerRef s = Some c \<or> (controllersMade s \<le> c \<and> c < controllersMade s'))
      \<and> (\<forall>cid c. connections s' cid = Some c \<longrightarrow>
             connections s cid = Some c \<or> should_stream s (owner c))
      \<and> (\<forall>t eff d. timers s' t = Some (eff, d) \<longrightarrow>
             timers s t = Some (eff, d) \<or> should_stream s eff))"


text \<open>
  The state of a hook that was mounted visible with options \<open>p\<close> and whose first
  \<open>m + 1\<close> invocations of \<^verbatim>\<open>streamFn\<close> have thrown the errors \<open>e 0\<close>, ..., \<open>e m\<close>, each
  but the last followed by the firing of the reconnect timer: the timer for the next attempt
  is pending. The theorems below show that this is the state the hook reaches.
\<close>

definition retry_pending :: "props \<Rightarrow> (nat \<Rightarrow> double) \<Rightarrow> (nat \<Rightarrow> string) \<Rightarrow> nat \<Rightarrow> hook_state" where
  "retry_pending p rnd e m =
     \<lparr>isConnected = False, isReconnecting = True, reconnectAttempt = 0, error = Some (e m),
      abortControllerRef = Some m, reconnectTimeoutRef = Some m, currentAttemptRef = Suc m,
      isVisible = True, rendered = Some p,
      lastDeps = Some (deps_of p True),
      effects = [\<lparr>isMounted = True, options = p, shouldStream = True\<rparr>],
      aborted = (\<lambda>_. False), externalAborted = (\<lambda>_. False), controllersMade = Suc m,
      timers = Map.empty(m \<mapsto> (0, calculateBackoffWithJitter (rnd m) (Suc m)
                                      (baseDelay p) (maxDelay p) (Some (Finite (1 / 4))))),
      timersMade = Suc m, connections = Map.empty, streamCalls = Suc m,
      randoms = rnd, randomCalls = Suc m,
      calls = concat (map (\<lambda>i. [OnDisconnect, OnError (e i) i]) [0..<Suc m])\<rparr>"

section \<open>Example inputs\<close>

text \<open>Concrete inputs at which the theorems below are instantiated.\<close>

text \<open>The manager of the README, empty and after the first \<open>getChannel\<close>.\<close>

definition empty_manager :: "jsval manager" where
  "empty_manager = createSSEChannelManager ''discussion'' ''comments''"

definition manager_with_channel :: "jsval manager" where
  "manager_with_channel = snd (getChannel ''123'' empty_manager)"



definition steady_options :: props where
  "steady_options =
     \<lparr>streamFn = (\<lambda>k. ReturnsPromise), maxRetries = \<infinity>, baseDelay = Finite 1000, maxDelay = Finite 30000,
      enabled = True, pauseOnHidden = True, shouldRetry = None, externalSignal = None,
      identity = 0\<rparr>"

definition refusing_options :: "enat \<Rightarrow> props" where
  "refusing_options retries =
     \<lparr>streamFn = (\<lambda>k. ReturnsGenerator), maxRetries = retries, baseDelay = Finite 1000,
      maxDelay = Finite 30000, enabled = True, pauseOnHidden = True,
      shouldRetry = Some (\<lambda>err attempt. False), externalSignal = None, identity = 0\<rparr>"

text \<open>
  The state in which the \<open>catch\<close> block runs when the hook was mounted visible with
  options \<open>p\<close>, the factory returned a stream at once, and iterating that stream throws.
\<close>

definition at_first_stream_error :: "props \<Rightarrow> hook_state" where
  "at_first_stream_error p =
     (step (Render p) (initial True (\<lambda>k. Finite (1 / 2))))\<lparr>connections := Map.empty\<rparr>"

section \<open>Theorems: backoff calculator\<close>

subsection \<open>Rounding to the nearest number\<close>

lemma bitlength_nonneg: "0 \<le> bitlength n"
proof (induction n rule: bitlength.induct)
  case (1 n)
  then show ?case by (subst bitlength.simps) simp
qed

lemma bitlength_pos: "0 < n \<Longrightarrow> 0 < bitlength n"
  using bitlength_nonneg [of "n div 2"] by (subst bitlength.simps) simp

lemma bitlength_bounds:
  "0 < n \<Longrightarrow> 2 ^ nat (bitlength n - 1) \<le> n \<and> n < 2 ^ nat (bitlength n)"
proof (induction n rule: bitlength.induct)
  case (1 n)
  show ?case
  proof (cases "n = 1")
    case True
    have "bitlength 1 = 1"
      by (subst bitlength.simps, simp, subst bitlength.simps, simp)
    then show ?thesis using True by simp
  next
    case False
    then have h: "0 < n div 2" using "1.prems" by simp
    have n: "\<not> n \<le> 0" using "1.prems" by simp
    note ih = "1.IH" [OF n h]
    have b: "bitlength n = bitlength (n div 2) + 1"
      using n by (subst bitlength.simps) simp
    have p: "0 < bitlength (n div 2)" by (rule bitlength_pos [OF h])
    have e1: "nat (bitlength n - 1) = Suc (nat (bitlength (n div 2) - 1))"
      using p b by simp
    have e2: "nat (bitlength n) = Suc (nat (bitlength (n div 2)))"
      using p b by simp
    have "2 * 2 ^ nat (bitlength (n div 2) - 1) \<le> 2 * (n div 2)"
      using ih by simp
    also have "\<dots> \<le> n" by simp
    finally have lo: "2 ^ nat (bitlength n - 1) \<le> n" by (simp add: e1)
    have "n div 2 + 1 \<le> 2 ^ nat (bitlength (n div 2))" using ih by simp
    then have "2 * (n div 2) + 2 \<le> 2 * 2 ^ nat (bitlength (n div 2))" by simp
    moreover have "n < 2 * (n div 2) + 2" by linarith
    ultimately have hi: "n < 2 ^ nat (bitlength n)" by (simp add: e2)
    show ?thesis using lo hi by simp
  qed
qed

lemma pow_le_of_int: "(2::int) ^ k \<le> m \<Longrightarrow> (2::real) ^ k \<le> of_int m"
proof -
  assume "(2::int) ^ k \<le> m"
  then have "real_of_int (2 ^ k) \<le> real_of_int m" by (simp only: of_int_le_iff)
  then show ?thesis by simp
qed

lemma of_int_less_pow: "m < (2::int) ^ k \<Longrightarrow> real_of_int m + 1 \<le> 2 ^ k"
proof -
  assume "m < (2::int) ^ k"
  then have "m + 1 \<le> 2 ^ k" by simp
  then have "real_of_int (m + 1) \<le> real_of_int (2 ^ k)" by (simp only: of_int_le_iff)
  then show ?thesis by simp
qed

lemma pow2_powr: "pow2 e = 2 powr (of_int e)"
proof (cases "0 \<le> e")
  case True
  then have "(2::real) powr (of_int e) = 2 powr (real (nat e))" by simp
  also have "\<dots> = 2 ^ nat e" by (rule powr_realpow) simp
  finally show ?thesis using True by (simp add: pow2_def)
next
  case False
  then have "(2::real) powr (of_int e) = 2 powr (- real (nat (- e)))" by simp
  also have "\<dots> = 1 / 2 powr (real (nat (- e)))" by (simp add: powr_minus divide_simps)
  also have "\<dots> = 1 / 2 ^ nat (- e)" by (simp add: powr_realpow)
  finally show ?thesis using False by (simp add: pow2_def)
qed

lemma pow2_pos [simp]: "0 < pow2 e"
  by (simp add: pow2_powr)

lemma pow2_add: "pow2 (a + b) = pow2 a * pow2 b"
  by (simp add: pow2_powr powr_add)

lemma pow2_le_iff [simp]: "pow2 a \<le> pow2 b \<longleftrightarrow> a \<le> b"
  by (simp add: pow2_powr)

lemma pow2_less_iff [simp]: "pow2 a < pow2 b \<longleftrightarrow> a < b"
  by (simp add: pow2_powr)

lemma pow2_nat: "pow2 (int n) = 2 ^ n"
  by (simp add: pow2_def)

lemma pow2_0 [simp]: "pow2 0 = 1"
  by (simp add: pow2_def)

lemma ilog2_bounds:
  assumes "0 < x"
  shows "pow2 (ilog2 x) \<le> x" and "x < pow2 (ilog2 x + 1)"
proof -
  have "pow2 (ilog2 x) \<le> x \<and> x < pow2 (ilog2 x + 1)"
  proof (cases "1 \<le> x")
    case True
    define n where "n = \<lfloor>x\<rfloor>"
    have n: "0 < n" using True by (simp add: n_def)
    note b = bitlength_bounds [OF n]
    have bp: "0 < bitlength n" by (rule bitlength_pos [OF n])
    have il: "ilog2 x = bitlength n - 1" using True by (simp add: ilog2_def n_def)
    have "pow2 (bitlength n - 1) = 2 ^ nat (bitlength n - 1)"
      using bp by (simp add: pow2_def)
    also have "\<dots> \<le> real_of_int n" using b by (simp add: pow_le_of_int)
    also have "\<dots> \<le> x" by (simp add: n_def)
    finally have lo: "pow2 (ilog2 x) \<le> x" by (simp add: il)
    have "real_of_int n + 1 \<le> 2 ^ nat (bitlength n)" using b by (simp add: of_int_less_pow)
    moreover have "x < real_of_int n + 1" by (simp add: n_def)
    ultimately have "x < 2 ^ nat (bitlength n)" by linarith
    also have "\<dots> = pow2 (bitlength n)" using bp by (simp add: pow2_def)
    finally have hi: "x < pow2 (ilog2 x + 1)" by (simp add: il)
    show ?thesis using lo hi by simp
  next
    case False
    define y where "y = 1 / x"
    define m where "m = \<lceil>y\<rceil> - 1"
    have y: "1 < y" using False assms by (simp add: y_def)
    have m: "0 < m" using y by (simp add: m_def)
    have my: "real_of_int m < y" "y \<le> real_of_int m + 1"
      unfolding m_def using ceiling_correct [of y] by simp_all
    note b = bitlength_bounds [OF m]
    have bp: "0 < bitlength m" by (rule bitlength_pos [OF m])
    have il: "ilog2 x = - bitlength m" using False by (simp add: ilog2_def m_def y_def)
    have x: "x = 1 / y" using assms by (simp add: y_def)
    have "real_of_int m + 1 \<le> 2 ^ nat (bitlength m)" using b by (simp add: of_int_less_pow)
    then have "y \<le> 2 ^ nat (bitlength m)" using my by linarith
    then have "1 / 2 ^ nat (bitlength m) \<le> 1 / y"
      using y by (simp add: frac_le)
    moreover have "pow2 (- bitlength m) = 1 / 2 ^ nat (bitlength m)"
      using bp by (simp add: pow2_def)
    ultimately have lo: "pow2 (ilog2 x) \<le> x"
      unfolding il by (simp add: x [symmetric])
    have "2 ^ nat (bitlength m - 1) \<le> real_of_int m"
      using b by (simp add: pow_le_of_int)
    then have lt: "2 ^ nat (bitlength m - 1) < y" using my by linarith
    have "1 / y < 1 / 2 ^ nat (bitlength m - 1)"
      using lt by (simp add: frac_less2)
    moreover have "pow2 (- bitlength m + 1) = 1 / 2 ^ nat (bitlength m - 1)"
      using bp by (cases "bitlength m = 1") (simp_all add: pow2_def)
    ultimately have hi: "x < pow2 (ilog2 x + 1)"
      unfolding il by (simp add: x [symmetric])
    show ?thesis using lo hi by simp
  qed
  then show "pow2 (ilog2 x) \<le> x" and "x < pow2 (ilog2 x + 1)" by simp_all
qed

lemma ilog2_unique:
  assumes "pow2 k \<le> x" and "x < pow2 (k + 1)"
  shows "ilog2 x = k"
proof -
  have x: "0 < x" using assms(1) pow2_pos [of k] by linarith
  note b = ilog2_bounds [OF x]
  have "pow2 (ilog2 x) < pow2 (k + 1)" using b(1) assms(2) by linarith
  moreover have "pow2 k < pow2 (ilog2 x + 1)" using b(2) assms(1) by linarith
  ultimately show ?thesis by simp
qed

lemma ilog2_mono:
  assumes "0 < x" and "x \<le> y"
  shows "ilog2 x \<le> ilog2 y"
proof -
  have y: "0 < y" using assms by linarith
  have "pow2 (ilog2 x) < pow2 (ilog2 y + 1)"
    using ilog2_bounds(1) [OF assms(1)] ilog2_bounds(2) [OF y] assms(2) by linarith
  then show ?thesis by simp
qed

text \<open>Rounding to the nearest integer, ties to even, is monotone and odd, and fixes the integers.\<close>

lemma pow2_nonneg [simp]: "0 \<le> pow2 e"
  using pow2_pos [of e] by linarith

lemma pow2_ne0 [simp]: "pow2 e \<noteq> 0"
  using pow2_pos [of e] by linarith

lemma pow2_1 [simp]: "pow2 1 = 2"
  by (simp add: pow2_def)

lemma roundTiesToEven_int [simp]: "roundTiesToEven (of_int n) = n"
  by (simp add: roundTiesToEven_def)

lemma roundTiesToEven_range:
  "\<lfloor>y\<rfloor> \<le> roundTiesToEven y" "roundTiesToEven y \<le> \<lfloor>y\<rfloor> + 1"
  by (simp_all add: roundTiesToEven_def Let_def)

lemma roundTiesToEven_mono:
  assumes "a \<le> b"
  shows "roundTiesToEven a \<le> roundTiesToEven b"
proof (cases "\<lfloor>a\<rfloor> = \<lfloor>b\<rfloor>")
  case True
  then have "a - of_int \<lfloor>a\<rfloor> \<le> b - of_int \<lfloor>b\<rfloor>" using assms by simp
  then show ?thesis
    using True by (simp add: roundTiesToEven_def Let_def)
next
  case False
  then have "\<lfloor>a\<rfloor> < \<lfloor>b\<rfloor>" using floor_mono [OF assms] by simp
  then show ?thesis
    using roundTiesToEven_range(2) [of a] roundTiesToEven_range(1) [of b] by linarith
qed

lemma roundTiesToEven_minus: "roundTiesToEven (- y) = - roundTiesToEven y"
proof (cases "y = of_int \<lfloor>y\<rfloor>")
  case True
  then obtain n where "y = of_int n" ..
  then have "- y = of_int (- n)" by simp
  then show ?thesis unfolding \<open>y = of_int n\<close> by (simp only: roundTiesToEven_int)
next
  case False
  define f where "f = \<lfloor>y\<rfloor>"
  define d where "d = y - of_int f"
  have d: "0 < d" "d < 1"
    using False floor_correct [of y] by (simp_all add: d_def f_def) linarith+
  have fm: "\<lfloor>- y\<rfloor> = - f - 1"
    by (rule floor_unique) (use d in \<open>simp_all add: d_def\<close>)
  have dm: "- y - of_int (- f - 1) = 1 - d" by (simp add: d_def)
  have "roundTiesToEven (- y) =
          (if 1 - d < 1 / 2 then - f - 1 else if 1 / 2 < 1 - d then - f
           else if even (- f - 1) then - f - 1 else - f)"
    unfolding roundTiesToEven_def Let_def fm dm by simp
  moreover have "roundTiesToEven y =
          (if d < 1 / 2 then f else if 1 / 2 < d then f + 1 else if even f then f else f + 1)"
    by (simp only: roundTiesToEven_def Let_def f_def [symmetric] d_def [symmetric])
  ultimately show ?thesis by auto
qed

lemma roundTiesToEven_le: "y \<le> of_int n \<Longrightarrow> roundTiesToEven y \<le> n"
  using roundTiesToEven_mono [of y "of_int n"] by simp

lemma roundTiesToEven_ge: "of_int n \<le> y \<Longrightarrow> n \<le> roundTiesToEven y"
  using roundTiesToEven_mono [of "of_int n" y] by simp

lemma expo_minus [simp]: "expo (- x) = expo x"
  by (simp add: expo_def)

lemma expo_ge: "- 1074 \<le> expo x"
  by (simp add: expo_def)

lemma expo_upper:
  assumes "x \<noteq> 0"
  shows "\<bar>x\<bar> < pow2 (expo x + 53)"
proof -
  have "\<bar>x\<bar> < pow2 (ilog2 \<bar>x\<bar> + 1)" using assms by (simp add: ilog2_bounds(2))
  also have "\<dots> \<le> pow2 (expo x + 53)" by (simp add: expo_def)
  finally show ?thesis .
qed

lemma expo_lower:
  assumes "x \<noteq> 0" and "expo x \<noteq> - 1074"
  shows "pow2 (expo x + 52) \<le> \<bar>x\<bar>"
proof -
  have "expo x = ilog2 \<bar>x\<bar> - 52" using assms(2) by (simp add: expo_def max_def split: if_splits)
  then show ?thesis using ilog2_bounds(1) [of "\<bar>x\<bar>"] assms(1) by simp
qed

lemma expo_mono:
  assumes "0 < x" and "x \<le> y"
  shows "expo x \<le> expo y"
  using ilog2_mono [of "\<bar>x\<bar>" "\<bar>y\<bar>"] assms by (simp add: expo_def)

lemma nearest_0 [simp]: "nearest 0 = 0"
  by (simp add: nearest_def)

lemma nearest_minus: "nearest (- x) = - nearest x"
  by (simp add: nearest_def roundTiesToEven_minus)

lemma nearest_nonneg:
  assumes "0 \<le> x"
  shows "0 \<le> nearest x"
proof -
  have "0 \<le> x / pow2 (expo x)" using assms by simp
  then have "0 \<le> roundTiesToEven (x / pow2 (expo x))"
    using roundTiesToEven_ge [of 0] by simp
  then show ?thesis by (simp add: nearest_def)
qed

lemma scaled_upper:
  assumes "0 < x"
  shows "nearest x \<le> pow2 (expo x + 53)"
proof -
  have "x < pow2 (expo x + 53)" using expo_upper [of x] assms by simp
  then have "x / pow2 (expo x) \<le> of_int (2 ^ 53)"
    by (simp add: pow2_add pow2_nat [of 53, simplified] divide_simps mult.commute)
  then have "roundTiesToEven (x / pow2 (expo x)) \<le> 2 ^ 53"
    by (rule roundTiesToEven_le)
  then have "real_of_int (roundTiesToEven (x / pow2 (expo x))) \<le> real_of_int (2 ^ 53)"
    by (simp only: of_int_le_iff)
  then have "real_of_int (roundTiesToEven (x / pow2 (expo x))) * pow2 (expo x)
              \<le> 2 ^ 53 * pow2 (expo x)"
    by (simp add: mult_right_mono)
  then show ?thesis
    using assms by (simp add: nearest_def pow2_add pow2_nat [of 53, simplified] mult.commute)
qed

lemma scaled_lower:
  assumes "0 < x" and "expo x \<noteq> - 1074"
  shows "pow2 (expo x + 52) \<le> nearest x"
proof -
  have "pow2 (expo x + 52) \<le> x" using expo_lower [of x] assms by simp
  then have "of_int (2 ^ 52) \<le> x / pow2 (expo x)"
    by (simp add: pow2_add pow2_nat [of 52, simplified] divide_simps mult.commute)
  then have "2 ^ 52 \<le> roundTiesToEven (x / pow2 (expo x))"
    by (rule roundTiesToEven_ge)
  then have "real_of_int (2 ^ 52) \<le> real_of_int (roundTiesToEven (x / pow2 (expo x)))"
    by (simp only: of_int_le_iff)
  then have "2 ^ 52 * pow2 (expo x)
              \<le> real_of_int (roundTiesToEven (x / pow2 (expo x))) * pow2 (expo x)"
    by (simp add: mult_right_mono)
  then show ?thesis
    using assms by (simp add: nearest_def pow2_add pow2_nat [of 52, simplified] mult.commute)
qed

lemma nearest_mono_pos:
  assumes "0 < x" and "x \<le> y"
  shows "nearest x \<le> nearest y"
proof (cases "expo x = expo y")
  case True
  have "x / pow2 (expo y) \<le> y / pow2 (expo y)"
    using assms(2) by (simp add: divide_right_mono)
  then have "roundTiesToEven (x / pow2 (expo y)) \<le> roundTiesToEven (y / pow2 (expo y))"
    by (rule roundTiesToEven_mono)
  then have "real_of_int (roundTiesToEven (x / pow2 (expo y)))
              \<le> real_of_int (roundTiesToEven (y / pow2 (expo y)))"
    by (simp only: of_int_le_iff)
  then show ?thesis
    using assms by (simp add: nearest_def True mult_right_mono)
next
  case False
  have y: "0 < y" using assms by linarith
  have lt: "expo x < expo y" using expo_mono [OF assms] False by simp
  then have ne: "expo y \<noteq> - 1074" using expo_ge [of x] by simp
  have "nearest x \<le> pow2 (expo x + 53)" by (rule scaled_upper [OF assms(1)])
  also have "\<dots> \<le> pow2 (expo y + 52)" using lt by simp
  also have "\<dots> \<le> nearest y" by (rule scaled_lower [OF y ne])
  finally show ?thesis .
qed

lemma nearest_mono:
  assumes "x \<le> y"
  shows "nearest x \<le> nearest y"
proof -
  consider "0 < x" | "x \<le> 0" "0 \<le> y" | "y < 0" by linarith
  then show ?thesis
  proof cases
    case 1
    then show ?thesis by (rule nearest_mono_pos [OF _ assms])
  next
    case 2
    have "nearest x \<le> 0" using nearest_nonneg [of "- x"] 2(1) by (simp add: nearest_minus)
    then show ?thesis using nearest_nonneg [OF 2(2)] by linarith
  next
    case 3
    have "nearest (- y) \<le> nearest (- x)"
      using 3 assms by (intro nearest_mono_pos) simp_all
    then show ?thesis by (simp add: nearest_minus)
  qed
qed

lemma nearest_at:
  assumes "x \<noteq> 0" and "expo x = e" and "x / pow2 e = of_int n"
  shows "nearest x = x"
proof -
  have "nearest x = real_of_int (roundTiesToEven (x / pow2 e)) * pow2 e"
    using assms(1,2) by (simp add: nearest_def)
  also have "\<dots> = (x / pow2 e) * pow2 e"
    unfolding assms(3) by (simp only: roundTiesToEven_int)
  also have "\<dots> = x" by simp
  finally show ?thesis .
qed

lemma nearest_scaled_int:
  assumes n: "0 < n" "n \<le> 2 ^ 53" and e: "- 1074 \<le> e" and big: "2 ^ 52 \<le> n \<or> e = - 1074"
  shows "nearest (of_int n * pow2 e) = of_int n * pow2 e"
proof -
  define z where "z = real_of_int n * pow2 e"
  have z: "0 < z" using n(1) by (simp add: z_def)
  have rn: "1 \<le> real_of_int n" "real_of_int n \<le> 2 ^ 53"
    using n of_int_le_iff [of n "2 ^ 53", where ?'a = real] by simp_all
  consider "n = 2 ^ 53" | "2 ^ 52 \<le> n" "n < 2 ^ 53" | "n < 2 ^ 52" "e = - 1074"
    using n(2) big by linarith
  then have "nearest z = z"
  proof cases
    case 1
    then have zz: "z = pow2 (e + 53)"
      by (simp add: z_def pow2_add pow2_nat [of 53, simplified])
    have "ilog2 z = e + 53" by (rule ilog2_unique) (simp_all add: zz)
    then have ex: "expo z = e + 1" using e z by (simp add: expo_def)
    have q: "z / pow2 (e + 1) = of_int (2 ^ 52)"
      by (simp add: zz pow2_add pow2_nat [of 53, simplified])
    have "z \<noteq> 0" using z by simp
    then show ?thesis using ex q by (rule nearest_at)
  next
    case 2
    have r: "2 ^ 52 \<le> real_of_int n" "real_of_int n + 1 \<le> 2 ^ 53"
      using 2 by (simp_all add: pow_le_of_int of_int_less_pow)
    have "pow2 (e + 52) \<le> z"
      using r(1) by (simp add: z_def pow2_add pow2_nat [of 52, simplified] mult.commute)
    moreover have "z < pow2 (e + 52 + 1)"
      using r(2) by (simp add: z_def pow2_add pow2_nat [of 53, simplified] mult.commute)
    ultimately have "ilog2 z = e + 52" by (rule ilog2_unique)
    then have ex: "expo z = e" using e z by (simp add: expo_def)
    have q: "z / pow2 e = of_int n" by (simp add: z_def)
    have "z \<noteq> 0" using z by simp
    then show ?thesis using ex q by (rule nearest_at)
  next
    case 3
    have r: "real_of_int n + 1 \<le> 2 ^ 52" using 3(1) by (simp add: of_int_less_pow)
    have "z < pow2 (e + 52)"
      using r by (simp add: z_def pow2_add pow2_nat [of 52, simplified] mult.commute)
    then have "pow2 (ilog2 z) < pow2 (e + 52)" using ilog2_bounds(1) [OF z] by linarith
    then have ex: "expo z = e" using z 3(2) by (simp add: expo_def)
    have q: "z / pow2 e = of_int n" by (simp add: z_def)
    have "z \<noteq> 0" using z by simp
    then show ?thesis using ex q by (rule nearest_at)
  qed
  then show ?thesis by (simp add: z_def)
qed

lemma nearest_idem_pos:
  assumes "0 < x"
  shows "nearest (nearest x) = nearest x"
proof -
  define n where "n = roundTiesToEven (x / pow2 (expo x))"
  have nx: "nearest x = of_int n * pow2 (expo x)" using assms by (simp add: nearest_def n_def)
  have n0: "0 \<le> n"
    unfolding n_def using assms by (intro roundTiesToEven_ge) simp
  show ?thesis
  proof (cases "n = 0")
    case True
    then show ?thesis by (simp add: nx)
  next
    case False
    then have pos: "0 < n" using n0 by simp
    have "nearest x \<le> pow2 (expo x + 53)" by (rule scaled_upper [OF assms])
    then have "real_of_int n \<le> 2 ^ 53"
      by (simp add: nx pow2_add pow2_nat [of 53, simplified] mult.commute)
    then have up: "n \<le> 2 ^ 53"
      using of_int_le_iff [of n "2 ^ 53", where ?'a = real] by simp
    have big: "2 ^ 52 \<le> n \<or> expo x = - 1074"
    proof (cases "expo x = - 1074")
      case True
      then show ?thesis by simp
    next
      case False
      have "pow2 (expo x + 52) \<le> nearest x" by (rule scaled_lower [OF assms False])
      then have "2 ^ 52 \<le> real_of_int n"
        by (simp add: nx pow2_add pow2_nat [of 52, simplified] mult.commute)
      then have "2 ^ 52 \<le> n"
        using of_int_le_iff [of "2 ^ 52" n, where ?'a = real] by simp
      then show ?thesis by simp
    qed
    show ?thesis
      unfolding nx by (rule nearest_scaled_int [OF pos up expo_ge big])
  qed
qed

lemma nearest_idem: "nearest (nearest x) = nearest x"
proof -
  consider "0 < x" | "x = 0" | "x < 0" by linarith
  then show ?thesis
  proof cases
    case 1
    then show ?thesis by (rule nearest_idem_pos)
  next
    case 2
    then show ?thesis by simp
  next
    case 3
    then have "nearest (nearest (- x)) = nearest (- x)" by (intro nearest_idem_pos) simp
    then show ?thesis by (simp add: nearest_minus)
  qed
qed

text \<open>
  Rounding is monotone, commutes with negation, and leaves a number as it is; integers up to
  \<open>2 ^ 53\<close> in magnitude are numbers.
\<close>

lemma fl_cases:
  obtains "fl x = PosInf" "2 ^ 1024 \<le> nearest x"
  | "fl x = NegInf" "nearest x \<le> - (2 ^ 1024)"
  | "fl x = Finite (nearest x)" "- (2 ^ 1024) < nearest x" "nearest x < 2 ^ 1024"
  by (cases "2 ^ 1024 \<le> nearest x"; cases "nearest x \<le> - (2 ^ 1024)")
    (auto simp add: fl_def Let_def)

lemma fl_mono:
  assumes "x \<le> y"
  shows "dle (fl x) (fl y)"
proof -
  note m = nearest_mono [OF assms]
  show ?thesis
    by (rule fl_cases [of x]; rule fl_cases [of y]) (use m in auto)
qed

lemma fl_idem:
  assumes "fl x = Finite y"
  shows "fl y = Finite y"
proof -
  have "y = nearest x \<and> - (2 ^ 1024) < nearest x \<and> nearest x < 2 ^ 1024"
    by (rule fl_cases [of x]) (use assms in auto)
  then show ?thesis by (simp add: fl_def Let_def nearest_idem)
qed

lemma fl_minus: "fl (- x) = dneg (fl x)"
  by (rule fl_cases [of x]) (auto simp add: fl_def Let_def nearest_minus)

lemma fl_0 [simp]: "fl 0 = Finite 0"
  by (simp add: fl_def)

lemma nearest_int:
  assumes "\<bar>n\<bar> \<le> 2 ^ 53"
  shows "nearest (of_int n) = of_int n"
proof -
  have pos: "nearest (real_of_int m) = real_of_int m" if m: "0 < m" "m \<le> 2 ^ 53" for m
  proof -
    define z where "z = real_of_int m"
    have z: "1 \<le> z" "z \<le> 2 ^ 53"
      using m of_int_le_iff [of m "2 ^ 53", where ?'a = real] by (simp_all add: z_def)
    show ?thesis
    proof (cases "m = 2 ^ 53")
      case True
      have "nearest (of_int (2 ^ 53) * pow2 0) = of_int (2 ^ 53) * pow2 0"
        by (rule nearest_scaled_int) simp_all
      then show ?thesis using True by simp
    next
      case False
      then have lt: "z + 1 \<le> 2 ^ 53" using m by (simp add: z_def of_int_less_pow)
      have "pow2 (ilog2 z) < pow2 53"
        using ilog2_bounds(1) [of z] z lt by (simp add: pow2_nat [of 53, simplified])
      then have il: "ilog2 z < 53" by simp
      have "pow2 0 < pow2 (ilog2 z + 1)" using ilog2_bounds(2) [of z] z by simp
      then have "0 < ilog2 z + 1" by (simp only: pow2_less_iff)
      then have il0: "0 \<le> ilog2 z" by simp
      define e where "e = ilog2 z - 52"
      have ex: "expo z = e" using z il0 by (simp add: expo_def e_def)
      have e: "e \<le> 0" "- 52 \<le> e" using il il0 by (simp_all add: e_def)
      have "z / pow2 e = of_int (m * 2 ^ nat (- e))"
        using e by (simp add: pow2_def z_def)
      moreover have "z \<noteq> 0" using z by simp
      ultimately show ?thesis unfolding z_def [symmetric] using ex by (intro nearest_at)
    qed
  qed
  consider "0 < n" | "n = 0" | "n < 0" by linarith
  then show ?thesis
  proof cases
    case 1
    then show ?thesis using assms by (intro pos) simp_all
  next
    case 2
    then show ?thesis by simp
  next
    case 3
    then have "nearest (real_of_int (- n)) = real_of_int (- n)"
      using assms by (intro pos) simp_all
    then show ?thesis by (simp add: nearest_minus)
  qed
qed

lemma fl_int:
  assumes "\<bar>n\<bar> \<le> 2 ^ 53"
  shows "fl (of_int n) = Finite (of_int n)"
proof -
  note ne = nearest_int [OF assms]
  have "n \<le> 2 ^ 53" "- (2 ^ 53) \<le> n" using assms by simp_all
  then have "real_of_int n \<le> real_of_int (2 ^ 53)" "real_of_int (- (2 ^ 53)) \<le> real_of_int n"
    by (simp_all only: of_int_le_iff)
  then have "- (2 ^ 1024) < real_of_int n" "real_of_int n < 2 ^ 1024"
    by simp_all
  then show ?thesis by (simp add: fl_def Let_def ne del: of_int_less_numeral_iff)
qed

text \<open>Powers of two: \<open>2 ** n\<close> is exact up to \<open>n = 1023\<close> and \<open>Infinity\<close> beyond.\<close>

lemma nearest_power2: "nearest (2 ^ n) = 2 ^ n"
proof (cases "n \<le> 53")
  case True
  then have "(2::int) ^ n \<le> 2 ^ 53" by (intro power_increasing) simp_all
  moreover have "\<bar>2 ^ n :: int\<bar> = 2 ^ n" by (rule abs_of_nonneg) simp
  ultimately have "\<bar>2 ^ n :: int\<bar> \<le> 2 ^ 53" by (simp only:)
  then have "nearest (real_of_int (2 ^ n)) = real_of_int (2 ^ n)" by (rule nearest_int)
  then show ?thesis by simp
next
  case False
  then have n: "n = 52 + (n - 52)" by simp
  have "nearest (of_int (2 ^ 52) * pow2 (int (n - 52))) = of_int (2 ^ 52) * pow2 (int (n - 52))"
    by (rule nearest_scaled_int) simp_all
  moreover have "(2::real) ^ n = 2 ^ 52 * 2 ^ (n - 52)"
    by (subst n) (simp only: power_add)
  ultimately show ?thesis by (simp add: pow2_nat)
qed

lemma fl_power2: "fl (2 ^ n) = (if n < 1024 then Finite (2 ^ n) else PosInf)"
proof -
  have neg: "((2::real) ^ n \<le> - (2 ^ 1024)) = False"
    using less_le_trans [of "- ((2::real) ^ 1024)" 0 "2 ^ n"] by (simp del: power_numeral)
  show ?thesis
  proof (cases "n < 1024")
    case True
    then have "(2::real) ^ n < 2 ^ 1024" by (intro power_strict_increasing) simp_all
    then have "((2::real) ^ 1024 \<le> 2 ^ n) = False" by (simp only: not_le [symmetric])
    then show ?thesis
      unfolding fl_def Let_def nearest_power2 using True by (simp only: neg if_False if_True)
  next
    case False
    then have "(2::real) ^ 1024 \<le> 2 ^ n" by (intro power_increasing) simp_all
    then have "((2::real) ^ 1024 \<le> 2 ^ n) = True" by (simp only:)
    then show ?thesis
      unfolding fl_def Let_def nearest_power2 using False by (simp only: if_False if_True)
  qed
qed

lemma fl_numeral [simp]: "fl 1 = Finite 1" "fl 2 = Finite 2" "fl (- 1) = Finite (- 1)"
  using fl_int [of 1] fl_int [of 2] fl_int [of "- 1"] by simp_all

lemma dle_refl: "a \<noteq> NaN \<Longrightarrow> dle a a"
  by (cases a) simp_all

lemma dle_trans: "dle a b \<Longrightarrow> dle b c \<Longrightarrow> dle a c"
  by (cases a; cases b; cases c) simp_all

lemma dle_Finite_left:
  assumes "dle (Finite a) d"
  obtains "d = PosInf" | y where "d = Finite y" "a \<le> y"
  using assms by (cases d) simp_all

lemma dle_Finite_right:
  assumes "dle d (Finite a)"
  obtains "d = NegInf" | y where "d = Finite y" "y \<le> a"
  using assms by (cases d) simp_all

lemma dle_between:
  assumes "dle (Finite a) d" and "dle d (Finite b)"
  obtains y where "d = Finite y" "a \<le> y" "y \<le> b"
  using assms by (cases d) simp_all

lemma Math_round_mono: "dle a b \<Longrightarrow> dle (Math_round a) (Math_round b)"
  by (cases a; cases b) (simp_all add: floor_mono)

text \<open>A product or sum of two numbers that lies between two numbers is rounded to a number between them.\<close>

lemma fl_between:
  assumes "fl a = Finite a" and "fl b = Finite b" and "a \<le> x" and "x \<le> b"
  obtains y where "fl x = Finite y" "a \<le> y" "y \<le> b" "fl y = Finite y"
proof -
  have "dle (Finite a) (fl x)" "dle (fl x) (Finite b)"
    using fl_mono [OF assms(3)] fl_mono [OF assms(4)] by (simp_all add: assms(1,2))
  then obtain y where y: "fl x = Finite y" "a \<le> y" "y \<le> b" by (rule dle_between)
  moreover have "fl y = Finite y" by (rule fl_idem [OF y(1)])
  ultimately show ?thesis by (rule that)
qed

lemma fl_neg_representable: "fl a = Finite a \<Longrightarrow> fl (- a) = Finite (- a)"
  by (simp add: fl_minus)

subsection \<open>The capped delay and the jitter\<close>

lemma capped_delay:
  assumes rb: "fl base = Finite base" and rl: "fl limit = Finite limit"
    and b: "0 < base" and l: "0 < limit"
  obtains cv where "calculateBackoff attempt (Finite base) (Finite limit) = Finite cv"
    and "0 < cv" and "cv \<le> limit" and "fl cv = Finite cv"
proof -
  have "dle (Finite 1) (fl (2 ^ attempt))"
    using fl_mono [of 1 "2 ^ attempt"] by simp
  then have d: "dmul (Finite base) (fl (2 ^ attempt)) = PosInf
      \<or> (\<exists>y. dmul (Finite base) (fl (2 ^ attempt)) = Finite y \<and> base \<le> y \<and> fl y = Finite y)"
  proof (cases rule: dle_Finite_left)
    case 1
    then show ?thesis using b by simp
  next
    case (2 w)
    have "base \<le> base * w" using b 2(2) by simp
    then have "dle (Finite base) (fl (base * w))" using fl_mono [of base "base * w"] rb by simp
    then show ?thesis
    proof (cases rule: dle_Finite_left)
      case 1
      then show ?thesis using 2(1) by simp
    next
      case (2 y)
      then show ?thesis using \<open>fl (2 ^ attempt) = Finite w\<close> fl_idem [of "base * w" y] by simp
    qed
  qed
  then show ?thesis
  proof
    assume "dmul (Finite base) (fl (2 ^ attempt)) = PosInf"
    then have "calculateBackoff attempt (Finite base) (Finite limit) = Finite limit"
      by (simp add: calculateBackoff_def Math_min_def)
    then show ?thesis using l rl by (intro that [of limit]) simp_all
  next
    assume "\<exists>y. dmul (Finite base) (fl (2 ^ attempt)) = Finite y \<and> base \<le> y \<and> fl y = Finite y"
    then obtain y where y: "dmul (Finite base) (fl (2 ^ attempt)) = Finite y" "base \<le> y"
      "fl y = Finite y" by blast
    have "calculateBackoff attempt (Finite base) (Finite limit) = Finite (if y \<le> limit then y else limit)"
      by (simp add: calculateBackoff_def Math_min_def y(1))
    then show ?thesis using y(2,3) b l rl by (intro that [of "if y \<le> limit then y else limit"]) simp_all
  qed
qed

lemma jitter_bounds:
  assumes rc: "fl cv = Finite cv" and rp: "fl p = Finite p" and ru: "fl u = Finite u"
    and c: "0 < cv" and p: "0 \<le> p" "p \<le> 1" and u: "0 \<le> u" "u < 1"
  obtains jv sv where "fl (cv * p) = Finite jv" and "0 \<le> jv" and "jv \<le> cv"
    and "fl jv = Finite jv"
    and "dadd (Finite cv) (dmul (dmul (Finite cv) (Finite p))
            (dsub (dmul (Finite u) (Finite 2)) (Finite 1))) = fl sv"
    and "cv - jv \<le> sv" and "sv \<le> cv + jv" and "p = 0 \<longrightarrow> sv = cv"
proof -
  have "0 \<le> cv * p" "cv * p \<le> cv" using c p by (simp_all add: mult_left_le)
  with fl_0 rc obtain jv where jv: "fl (cv * p) = Finite jv" "0 \<le> jv" "jv \<le> cv"
    "fl jv = Finite jv" by (rule fl_between)
  have "0 \<le> u * 2" "u * 2 \<le> 2" using u by simp_all
  with fl_0 fl_numeral(2) obtain av where av: "fl (u * 2) = Finite av" "0 \<le> av" "av \<le> 2"
    by (rule fl_between)
  have "- 1 \<le> av - 1" "av - 1 \<le> 1" using av by simp_all
  with fl_numeral(3) fl_numeral(1) obtain wv where wv: "fl (av - 1) = Finite wv"
    "- 1 \<le> wv" "wv \<le> 1"
    by (rule fl_between)
  have w: "dsub (fl (u * 2)) (Finite 1) = Finite wv"
    by (simp add: dsub_def av wv)
  have "- jv \<le> jv * wv" "jv * wv \<le> jv"
    using jv(2) wv(2,3) mult_left_mono [of "- 1" wv jv] mult_left_mono [of wv 1 jv] by simp_all
  with fl_neg_representable [OF jv(4)] jv(4) obtain jj where jj: "fl (jv * wv) = Finite jj"
    "- jv \<le> jj" "jj \<le> jv"
    by (rule fl_between)
  have s: "dadd (Finite cv) (dmul (dmul (Finite cv) (Finite p))
            (dsub (dmul (Finite u) (Finite 2)) (Finite 1))) = fl (cv + jj)"
    by (simp add: w jv jj)
  have z: "p = 0 \<longrightarrow> cv + jj = cv"
    using jv(1) jj(1) by auto
  show ?thesis
    by (rule that [OF jv(1) jv(2) jv(3) jv(4) s _ _ z]) (use jj in simp_all)
qed

lemmas double_eval =
  fl_def nearest_def expo_def ilog2_def pow2_def roundTiesToEven_def bitlength.simps Let_def
  calculateBackoffWithJitter_def addJitter_def calculateBackoff_def Math_min_def dsub_def

text \<open>
  Claim C7 fails as stated, because every operation of the code is rounded. Take attempt 0,
  \<open>baseDelay = maxDelay = 50\<close>, \<open>jitterPercent = 0.15\<close> (as a number:
  \<open>5404319552844595 / 2 ^ 55\<close>) and \<open>Math.random() = 1 - 2 ^ - 52\<close>. The capped delay is
  \<open>c = 50\<close> and the code returns 58, whereas \<open>round (c * (1 + p))\<close> is 57 and
  \<open>round (c + c * p * u)\<close> is 57, in exact arithmetic as well as when \<open>c * (1 + p)\<close> is
  computed with numbers: the product \<open>50 * 0.15\<close> is rounded up to \<open>7.5\<close>, the jitter to
  \<open>7.5 - 2 ^ - 48\<close> and the sum to \<open>57.5\<close>.
\<close>

theorem jitter_bound_exceeded_by_rounding:
  "fl (3 / 20) = Finite (5404319552844595 / 2 ^ 55)
   \<and> fl (1 - 1 / 2 ^ 52) = Finite (1 - 1 / 2 ^ 52)
   \<and> fl 50 = Finite 50
   \<and> calculateBackoff 0 (Finite 50) (Finite 50) = Finite 50
   \<and> calculateBackoffWithJitter (Finite (1 - 1 / 2 ^ 52)) 0 (Finite 50) (Finite 50)
        (Some (Finite (5404319552844595 / 2 ^ 55))) = Finite 58
   \<and> \<lfloor>50 * (1 + 5404319552844595 / 2 ^ 55) + 1 / 2 :: real\<rfloor> = 57
   \<and> \<lfloor>50 + 50 * (5404319552844595 / 2 ^ 55) * ((1 - 1 / 2 ^ 52) * 2 - 1) + 1 / 2 :: real\<rfloor> = 57
   \<and> Math_round (dmul (Finite 50) (dadd (Finite 1) (Finite (5404319552844595 / 2 ^ 55))))
        = Finite 57"
  by (simp add: double_eval)

text \<open>
  Claim C7, amended. Let \<open>base\<close>, \<open>limit\<close>, \<open>p\<close> and \<open>u\<close> be numbers with
  \<open>base > 0\<close>, \<open>limit > 0\<close>, \<open>0 \<le> p \<le> 1\<close> and \<open>0 \<le> u < 1\<close>, the latter the value
  of \<^verbatim>\<open>Math.random()\<close>, and let the attempt be a non-negative integer. The cap is applied
  before the jitter: the capped delay \<open>c\<close> is \<^verbatim>\<open>Math.min(base * 2 ** attempt, limit)\<close>, a
  positive number not above \<open>limit\<close>, equal to \<open>min (base * 2 ^ attempt) limit\<close> whenever
  that product is a number; and the result \<open>r\<close> is \<open>addJitter c p\<close>, that is
  \<^verbatim>\<open>Math.round(c + c * p * (u * 2 - 1))\<close> with every operation rounded. It lies between
  \<^verbatim>\<open>Math.round(c - c * p)\<close> and \<^verbatim>\<open>Math.round(c + c * p)\<close>, the product, difference
  and sum being those of numbers, so it is at most
  \<^verbatim>\<open>Math.round(limit + limit * p)\<close>. It is a non-negative integer, unless \<open>c + c * p\<close>
  overflows, when it may be \<^verbatim>\<open>Infinity\<close>. With \<open>p = 0\<close> it is \<^verbatim>\<open>Math.round(c)\<close>.
  An omitted \<open>jitterPercent\<close> stands for 0.25.
\<close>

theorem calculateBackoffWithJitter_cap_then_jitter:
  assumes rb: "fl base = Finite base" and rl: "fl limit = Finite limit"
    and rp: "fl p = Finite p" and ru: "fl u = Finite u"
    and b: "0 < base" and l: "0 < limit" and p: "0 \<le> p" "p \<le> 1" and u: "0 \<le> u" "u < 1"
  shows "let c = calculateBackoff attempt (Finite base) (Finite limit);
             r = calculateBackoffWithJitter (Finite u) attempt (Finite base) (Finite limit)
                   (Some (Finite p));
             spread = dmul c (Finite p)
         in c = Math_min (dmul (Finite base) (fl (2 ^ attempt))) (Finite limit)
          \<and> (\<exists>cv. c = Finite cv \<and> 0 < cv \<and> cv \<le> limit \<and> fl cv = Finite cv)
          \<and> (fl (2 ^ attempt) = Finite (2 ^ attempt)
               \<and> fl (base * 2 ^ attempt) = Finite (base * 2 ^ attempt) \<longrightarrow>
               c = Finite (min (base * 2 ^ attempt) limit))
          \<and> r = addJitter (Finite u) c (Finite p)
          \<and> r = Math_round (dadd c (dmul spread (dsub (dmul (Finite u) (Finite 2)) (Finite 1))))
          \<and> dle (Math_round (dsub c spread)) r
          \<and> dle r (Math_round (dadd c spread))
          \<and> dle r (Math_round (dadd (Finite limit) (dmul (Finite limit) (Finite p))))
          \<and> (r = PosInf \<or> (\<exists>k. r = Finite (of_int k) \<and> 0 \<le> k))
          \<and> (dadd c spread \<noteq> PosInf \<longrightarrow> (\<exists>k. r = Finite (of_int k) \<and> 0 \<le> k))
          \<and> (p = 0 \<longrightarrow> r = Math_round c)
          \<and> calculateBackoffWithJitter (Finite u) attempt (Finite base) (Finite limit) None
              = calculateBackoffWithJitter (Finite u) attempt (Finite base) (Finite limit)
                  (Some (Finite (1 / 4)))"
proof -
  define c where "c = calculateBackoff attempt (Finite base) (Finite limit)"
  define r where "r = calculateBackoffWithJitter (Finite u) attempt (Finite base) (Finite limit)
                   (Some (Finite p))"
  define spread where "spread = dmul c (Finite p)"
  obtain cv where cv: "c = Finite cv" "0 < cv" "cv \<le> limit" "fl cv = Finite cv"
    unfolding c_def by (rule capped_delay [OF rb rl b l])
  obtain jv sv where jv: "fl (cv * p) = Finite jv" "0 \<le> jv" "jv \<le> cv"
      "fl jv = Finite jv"
    and sv: "dadd (Finite cv) (dmul (dmul (Finite cv) (Finite p))
            (dsub (dmul (Finite u) (Finite 2)) (Finite 1))) = fl sv"
      "cv - jv \<le> sv" "sv \<le> cv + jv" "p = 0 \<longrightarrow> sv = cv"
    by (rule jitter_bounds [OF cv(4) rp ru cv(2) p u])
  have c1: "c = Math_min (dmul (Finite base) (fl (2 ^ attempt))) (Finite limit)"
    by (simp add: c_def calculateBackoff_def)
  have c2: "\<exists>cv. c = Finite cv \<and> 0 < cv \<and> cv \<le> limit \<and> fl cv = Finite cv"
    using cv by blast
  have c3: "fl (2 ^ attempt) = Finite (2 ^ attempt)
               \<and> fl (base * 2 ^ attempt) = Finite (base * 2 ^ attempt) \<longrightarrow>
               c = Finite (min (base * 2 ^ attempt) limit)"
    by (auto simp add: c1 Math_min_def min_def)
  have r1: "r = addJitter (Finite u) c (Finite p)"
    by (simp add: r_def c_def calculateBackoffWithJitter_def calculateBackoff_def)
  have r2: "r = Math_round (dadd c (dmul spread (dsub (dmul (Finite u) (Finite 2)) (Finite 1))))"
    by (simp add: r1 addJitter_def spread_def)
  have r3: "r = Math_round (fl sv)"
    unfolding r2 spread_def cv(1) sv(1) ..
  have sp: "spread = Finite jv" by (simp add: spread_def cv(1) jv(1))
  have lo: "dsub c spread = fl (cv - jv)" by (simp add: sp cv(1) dsub_def)
  have hi: "dadd c spread = fl (cv + jv)" by (simp add: sp cv(1))
  have b1: "dle (Math_round (dsub c spread)) r"
    unfolding lo r3 by (intro Math_round_mono fl_mono sv(2))
  have b2: "dle r (Math_round (dadd c spread))"
    unfolding hi r3 by (intro Math_round_mono fl_mono sv(3))
  have "0 \<le> limit * p" "limit * p \<le> limit" using l p by (simp_all add: mult_left_le)
  with fl_0 rl obtain lv where lv: "fl (limit * p) = Finite lv" "0 \<le> lv" "lv \<le> limit"
    by (rule fl_between)
  have "cv * p \<le> limit * p" using cv(3) p(1) by (simp add: mult_right_mono)
  then have "dle (fl (cv * p)) (fl (limit * p))" by (rule fl_mono)
  then have jl: "jv \<le> lv" using jv(1) lv(1) by simp
  have top: "dadd (Finite limit) (dmul (Finite limit) (Finite p)) = fl (limit + lv)"
    by (simp add: lv(1))
  have b3: "dle r (Math_round (dadd (Finite limit) (dmul (Finite limit) (Finite p))))"
    unfolding top r3 using sv(3) cv(3) jl by (intro Math_round_mono fl_mono) linarith
  have "0 \<le> sv" using sv(2) jv(3) by linarith
  then have "dle (Finite 0) (fl sv)" using fl_mono [of 0 sv] by simp
  then have i0: "fl sv = PosInf \<or> (\<exists>y. fl sv = Finite y \<and> 0 \<le> y)"
    by (cases rule: dle_Finite_left) simp_all
  have int_of: "\<exists>k. Math_round (Finite y) = Finite (of_int k) \<and> 0 \<le> k" if "0 \<le> y" for y
    using that by (intro exI [of _ "\<lfloor>y + 1 / 2\<rfloor>"]) simp
  have i1: "r = PosInf \<or> (\<exists>k. r = Finite (of_int k) \<and> 0 \<le> k)"
    using i0 int_of unfolding r3 by auto
  have i2: "dadd c spread \<noteq> PosInf \<longrightarrow> (\<exists>k. r = Finite (of_int k) \<and> 0 \<le> k)"
  proof
    assume fin: "dadd c spread \<noteq> PosInf"
    have "dle (fl sv) (fl (cv + jv))" by (intro fl_mono sv(3))
    then have "fl sv \<noteq> PosInf" using fin unfolding hi by (cases "fl (cv + jv)") auto
    then show "\<exists>k. r = Finite (of_int k) \<and> 0 \<le> k" using i0 int_of unfolding r3 by auto
  qed
  have z: "p = 0 \<longrightarrow> r = Math_round c"
    using sv(4) by (auto simp add: r3 cv(1) cv(4))
  have dflt: "calculateBackoffWithJitter (Finite u) attempt (Finite base) (Finite limit) None
              = calculateBackoffWithJitter (Finite u) attempt (Finite base) (Finite limit)
                  (Some (Finite (1 / 4)))"
    by (simp add: calculateBackoffWithJitter_def)
  show ?thesis
    unfolding Let_def c_def [symmetric] r_def [symmetric] spread_def [symmetric]
    by (intro conjI c1 c2 c3 r1 r2 b1 b2 b3 i1 i2 z dflt)
qed

text \<open>
  At attempt 10 with \<open>base = 1000\<close>, \<open>limit = 10000\<close>, \<open>p = 1/4\<close> and
  \<^verbatim>\<open>Math.random()\<close> \<open>= 0.9999\<close> (as a number: \<open>4503149267407759 / 2 ^ 52\<close>) the delay
  is capped at 10000 and the result is 12500, the upper end of the interval from 7500 to
  12500. With \<open>p = 0\<close> the result is 10000, also at attempt 2000, where \<^verbatim>\<open>2 ** attempt\<close>
  is \<^verbatim>\<open>Infinity\<close>.
\<close>

theorem calculateBackoffWithJitter_cap_then_jitter_witness:
  "fl 1000 = Finite 1000 \<and> fl 10000 = Finite 10000 \<and> fl (1 / 4) = Finite (1 / 4)
   \<and> fl (9999 / 10000) = Finite (4503149267407759 / 2 ^ 52)
   \<and> fl (4503149267407759 / 2 ^ 52) = Finite (4503149267407759 / 2 ^ 52)
   \<and> (0::real) < 1000 \<and> (0::real) < 10000 \<and> (0::real) \<le> 1 / 4 \<and> (1 / 4 :: real) \<le> 1
   \<and> (0::real) \<le> 4503149267407759 / 2 ^ 52 \<and> (4503149267407759 / 2 ^ 52 :: real) < 1
   \<and> calculateBackoff 10 (Finite 1000) (Finite 10000) = Finite 10000
   \<and> calculateBackoffWithJitter (Finite (4503149267407759 / 2 ^ 52)) 10 (Finite 1000)
        (Finite 10000) (Some (Finite (1 / 4))) = Finite 12500
   \<and> Math_round (dsub (Finite 10000) (dmul (Finite 10000) (Finite (1 / 4)))) = Finite 7500
   \<and> Math_round (dadd (Finite 10000) (dmul (Finite 10000) (Finite (1 / 4)))) = Finite 12500
   \<and> dle (Finite 7500)
        (calculateBackoffWithJitter (Finite (4503149267407759 / 2 ^ 52)) 10 (Finite 1000)
           (Finite 10000) (Some (Finite (1 / 4))))
   \<and> dle (calculateBackoffWithJitter (Finite (4503149267407759 / 2 ^ 52)) 10 (Finite 1000)
           (Finite 10000) (Some (Finite (1 / 4))))
        (Finite 12500)
   \<and> calculateBackoffWithJitter (Finite (4503149267407759 / 2 ^ 52)) 10 (Finite 1000)
        (Finite 10000) (Some (Finite 0)) = Finite 10000
   \<and> calculateBackoffWithJitter (Finite (4503149267407759 / 2 ^ 52)) 2000 (Finite 1000)
        (Finite 10000) (Some (Finite 0)) = Finite 10000"
proof -
  have pre: "fl 1000 = Finite 1000" "fl 10000 = Finite 10000" "fl (1 / 4) = Finite (1 / 4)"
    "fl (4503149267407759 / 2 ^ 52) = Finite (4503149267407759 / 2 ^ 52)"
    "fl 0 = Finite 0"
    by (simp_all add: double_eval)
  have nine: "fl (9999 / 10000) = Finite (4503149267407759 / 2 ^ 52)"
    by (simp add: double_eval)
  have rng: "(0::real) < 1000" "(0::real) < 10000" "(0::real) \<le> 1 / 4" "(1 / 4 :: real) \<le> 1"
    "(0::real) \<le> 4503149267407759 / 2 ^ 52" "(4503149267407759 / 2 ^ 52 :: real) < 1"
    "(0::real) \<le> 0" "(0::real) \<le> 1"
    by simp_all
  note T = calculateBackoffWithJitter_cap_then_jitter
  note A = T [OF pre(1,2,3,4) rng(1,2,3,4,5,6), of 10, unfolded Let_def]
  note Z = T [OF pre(1,2,5,4) rng(1,2,7,8,5,6), of 10, unfolded Let_def]
  note Y = T [OF pre(1,2,5,4) rng(1,2,7,8,5,6), of 2000, unfolded Let_def]
  have c: "calculateBackoff 10 (Finite 1000) (Finite 10000) = Finite 10000"
    by (simp add: double_eval)
  have c': "calculateBackoff 2000 (Finite 1000) (Finite 10000) = Finite 10000"
    unfolding calculateBackoff_def Let_def fl_power2 by (simp add: Math_min_def)
  have b: "Math_round (dsub (Finite 10000) (dmul (Finite 10000) (Finite (1 / 4)))) = Finite 7500"
    "Math_round (dadd (Finite 10000) (dmul (Finite 10000) (Finite (1 / 4)))) = Finite 12500"
    by (simp_all add: double_eval)
  have r: "calculateBackoffWithJitter (Finite (4503149267407759 / 2 ^ 52)) 10 (Finite 1000)
        (Finite 10000) (Some (Finite (1 / 4))) = Finite 12500"
    by (simp add: double_eval)
  have lo: "dle (Finite 7500)
        (calculateBackoffWithJitter (Finite (4503149267407759 / 2 ^ 52)) 10 (Finite 1000)
           (Finite 10000) (Some (Finite (1 / 4))))"
    using A [THEN conjunct2, THEN conjunct2, THEN conjunct2, THEN conjunct2, THEN conjunct2,
        THEN conjunct1]
    unfolding c b .
  have hi: "dle (calculateBackoffWithJitter (Finite (4503149267407759 / 2 ^ 52)) 10 (Finite 1000)
           (Finite 10000) (Some (Finite (1 / 4))))
        (Finite 12500)"
    using A [THEN conjunct2, THEN conjunct2, THEN conjunct2, THEN conjunct2, THEN conjunct2,
        THEN conjunct2, THEN conjunct1]
    unfolding c b .
  have z: "calculateBackoffWithJitter (Finite (4503149267407759 / 2 ^ 52)) 10 (Finite 1000)
        (Finite 10000) (Some (Finite 0)) = Finite 10000"
    "calculateBackoffWithJitter (Finite (4503149267407759 / 2 ^ 52)) 2000 (Finite 1000)
        (Finite 10000) (Some (Finite 0)) = Finite 10000"
    using Z [THEN conjunct2, THEN conjunct2, THEN conjunct2, THEN conjunct2, THEN conjunct2,
        THEN conjunct2, THEN conjunct2, THEN conjunct2, THEN conjunct2, THEN conjunct2,
        THEN conjunct1, THEN mp, OF refl]
      Y [THEN conjunct2, THEN conjunct2, THEN conjunct2, THEN conjunct2, THEN conjunct2,
        THEN conjunct2, THEN conjunct2, THEN conjunct2, THEN conjunct2, THEN conjunct2,
        THEN conjunct1, THEN mp, OF refl]
    unfolding c c' by simp_all
  show ?thesis
    by (intro conjI pre(1,2,3,4) nine rng(1,2,3,4,5,6) c r b lo hi z)
qed

section \<open>Theorems: channel manager\<close>

lemmas manager_defs =
  getChannel_def createChannel_def publish_def broadcast_def cleanupIfEmpty_def
  register_def deregister_def

lemma keyPrefix_apply_op [simp]: "keyPrefix (apply_op x m) = keyPrefix m"
  by (cases x) (simp_all add: manager_defs Let_def split: option.splits prod.splits)

lemma keySuffix_apply_op [simp]: "keySuffix (apply_op x m) = keySuffix m"
  by (cases x) (simp_all add: manager_defs Let_def split: option.splits prod.splits)

lemma buildChannelKey_apply_op [simp]:
  "buildChannelKey (apply_op x m) r = buildChannelKey m r"
  by (simp add: buildChannelKey_def)

lemma buildChannelKey_run_ops [simp]: "buildChannelKey (run_ops xs m) r = buildChannelKey m r"
  by (induction xs arbitrary: m) auto

lemma manager_wf_apply_op: "manager_wf m \<Longrightarrow> manager_wf (apply_op x m)"
  by (cases x)
     (auto simp: manager_wf_def manager_defs Let_def less_Suc_eq
           split: option.splits prod.splits if_splits)

lemma manager_wf_run_ops: "manager_wf m \<Longrightarrow> manager_wf (run_ops xs m)"
  by (induction xs arbitrary: m) (auto simp: manager_wf_apply_op)

lemma manager_wf_create: "manager_wf (createSSEChannelManager prefix suffix)"
  by (simp add: manager_wf_def createSSEChannelManager_def)

lemma next_channel_apply_op: "next_channel m \<le> next_channel (apply_op x m)"
  by (cases x) (auto simp: manager_defs Let_def split: option.splits prod.splits)

lemma next_channel_run_ops: "next_channel m \<le> next_channel (run_ops xs m)"
  by (induction xs arbitrary: m) (auto intro: order_trans [OF next_channel_apply_op])

lemma channel_kept_apply_op:
  "channels m k = Some c \<Longrightarrow> \<not> removes k x m \<Longrightarrow> channels (apply_op x m) k = Some c"
  by (cases x) (auto simp: manager_defs Let_def split: option.splits prod.splits if_splits)

lemma channel_kept_run_ops:
  "channels m k = Some c \<Longrightarrow> never_removed k xs m \<Longrightarrow> channels (run_ops xs m) k = Some c"
  by (induction xs arbitrary: m) (auto simp: channel_kept_apply_op)

lemma getChannel_registers:
  "channels (snd (getChannel r m)) (buildChannelKey m r) = Some (fst (getChannel r m))"
  by (auto simp: getChannel_def createChannel_def Let_def buildChannelKey_def
           split: option.splits)

lemma getChannel_existing:
  "channels m (buildChannelKey m r) = Some c \<Longrightarrow> getChannel r m = (c, m)"
  by (simp add: getChannel_def)

lemma getChannel_fresh:
  "channels m (buildChannelKey m r) = None \<Longrightarrow> fst (getChannel r m) = next_channel m"
  by (simp add: getChannel_def createChannel_def)

lemma cleanupIfEmpty_removed:
  "channels m (buildChannelKey m r) = Some c \<Longrightarrow> activeSessions m c = [] \<Longrightarrow>
   cleanupIfEmpty r m = m\<lparr>channels := (channels m)(buildChannelKey m r := None)\<rparr>"
  by (simp add: cleanupIfEmpty_def)

text \<open>
  Claim C8. On a manager reached from a newly created one by any calls, let \<open>c\<close> be the
  channel \<open>getChannel r\<close> returns. After any further calls none of which is a
  \<open>cleanupIfEmpty\<close> that removes the channel of that key, \<open>getChannel r\<close> returns the
  same instance \<open>c\<close>. After any further calls followed by a \<open>cleanupIfEmpty r\<close> that does
  remove the channel, the next \<open>getChannel r\<close> returns an instance different from \<open>c\<close>
  and from every instance the manager referred to, and registers it under the key.
\<close>

theorem getChannel_identity:
  assumes "m = run_ops pre (createSSEChannelManager prefix suffix)"
  shows "let k = buildChannelKey m r;
             c = fst (getChannel r m);
             m1 = snd (getChannel r m)
         in (\<forall>ops. never_removed k ops m1 \<longrightarrow> fst (getChannel r (run_ops ops m1)) = c)
          \<and> (\<forall>ops. removes k (CleanupIfEmpty r) (run_ops ops m1) \<longrightarrow>
                (let m2 = run_ops ops m1;
                     m3 = cleanupIfEmpty r m2;
                     c' = fst (getChannel r m3)
                 in channels m3 k = None
                  \<and> c' \<noteq> c
                  \<and> (\<forall>k'. channels m2 k' \<noteq> Some c')
                  \<and> channels (snd (getChannel r m3)) k = Some c'))"
proof -
  define k where "k = buildChannelKey m r"
  define c where "c = fst (getChannel r m)"
  define m1 where "m1 = snd (getChannel r m)"
  have wf: "manager_wf m"
    unfolding assms by (rule manager_wf_run_ops [OF manager_wf_create])
  have m1_op: "m1 = apply_op (GetChannel r) m" by (simp add: m1_def)
  have wf1: "manager_wf m1" unfolding m1_op by (rule manager_wf_apply_op [OF wf])
  have key1: "buildChannelKey m1 x = buildChannelKey m x" for x
    using buildChannelKey_apply_op [of "GetChannel r" m x] by (simp add: m1_def)
  have reg: "channels m1 k = Some c"
    unfolding m1_def k_def c_def by (rule getChannel_registers)
  have c_lt: "c < next_channel m1" using wf1 reg by (auto simp: manager_wf_def)
  have same: "fst (getChannel r (run_ops ops m1)) = c" if "never_removed k ops m1" for ops
  proof -
    have "channels (run_ops ops m1) k = Some c" by (rule channel_kept_run_ops [OF reg that])
    then have "channels (run_ops ops m1) (buildChannelKey (run_ops ops m1) r) = Some c"
      by (simp add: key1 k_def)
    then show ?thesis by (simp add: getChannel_existing)
  qed
  have fresh: "channels m3 k = None \<and> c' \<noteq> c \<and> (\<forall>k'. channels m2 k' \<noteq> Some c')
        \<and> channels (snd (getChannel r m3)) k = Some c'"
    if rem: "removes k (CleanupIfEmpty r) (run_ops ops m1)"
      and m2: "m2 = run_ops ops m1" and m3: "m3 = cleanupIfEmpty r m2"
      and c': "c' = fst (getChannel r m3)" for ops m2 m3 c'
  proof -
    have key2: "buildChannelKey m2 r = k" by (simp add: m2 key1 k_def)
    obtain b where b: "channels m2 k = Some b" "activeSessions m2 b = []"
      using rem unfolding m2 [symmetric] by (auto split: option.splits)
    have m3_eq: "m3 = m2\<lparr>channels := (channels m2)(k := None)\<rparr>"
      unfolding m3 using cleanupIfEmpty_removed [of m2 r b] b key2 by simp
    have none: "channels m3 k = None" by (simp add: m3_eq)
    have key3: "buildChannelKey m3 r = k" by (simp add: m3_eq buildChannelKey_def key2 [symmetric])
    have "c' = next_channel m3"
      unfolding c' using getChannel_fresh [of m3 r] none key3 by simp
    then have c'_eq: "c' = next_channel m2" by (simp add: m3_eq)
    have wf2: "manager_wf m2" unfolding m2 by (rule manager_wf_run_ops [OF wf1])
    have "next_channel m1 \<le> next_channel m2" unfolding m2 by (rule next_channel_run_ops)
    then have "c' \<noteq> c" using c_lt c'_eq by simp
    moreover have "\<forall>k'. channels m2 k' \<noteq> Some c'"
      using wf2 c'_eq by (auto simp: manager_wf_def)
    moreover have "channels (snd (getChannel r m3)) k = Some c'"
      unfolding c' using getChannel_registers [of r m3] key3 by simp
    ultimately show ?thesis using none by simp
  qed
  show ?thesis
    unfolding Let_def k_def [symmetric] c_def [symmetric] m1_def [symmetric]
    using same fresh by (auto simp: Let_def)
qed


lemmas manager_eval =
  manager_defs buildChannelKey_def createSSEChannelManager_def empty_manager_def
  manager_with_channel_def Let_def

text \<open>
  The manager of the README (\<open>discussion:<id>:comments\<close>): the first \<open>getChannel\<close>
  creates channel 0; it is still channel 0 after a session registered, an event was
  published, a \<open>cleanupIfEmpty\<close> found the session and another resource got its channel;
  after the session deregistered and \<open>cleanupIfEmpty\<close> removed the entry, \<open>getChannel\<close>
  creates channel 1.
\<close>

theorem getChannel_identity_witness:
  "empty_manager = run_ops [] (createSSEChannelManager ''discussion'' ''comments'')
   \<and> buildChannelKey empty_manager ''123'' = ''discussion:123:comments''
   \<and> fst (getChannel ''123'' empty_manager) = 0
   \<and> never_removed ''discussion:123:comments''
        [Register 0 7, Publish ''123'' (JStr ''hello''), CleanupIfEmpty ''123'', GetChannel ''456'']
        manager_with_channel
   \<and> fst (getChannel ''123''
        (run_ops
           [Register 0 7, Publish ''123'' (JStr ''hello''), CleanupIfEmpty ''123'', GetChannel ''456'']
           manager_with_channel)) = 0
   \<and> removes ''discussion:123:comments'' (CleanupIfEmpty ''123'')
        (run_ops [Register 0 7, Deregister 0 7] manager_with_channel)
   \<and> fst (getChannel ''123''
        (cleanupIfEmpty ''123'' (run_ops [Register 0 7, Deregister 0 7] manager_with_channel))) = 1"
proof -
  have start: "empty_manager = run_ops [] (createSSEChannelManager ''discussion'' ''comments'')"
    by (simp add: empty_manager_def)
  have key: "buildChannelKey empty_manager ''123'' = ''discussion:123:comments''"
    by (simp add: manager_eval)
  have c0: "fst (getChannel ''123'' empty_manager) = 0"
    by (simp add: manager_eval)
  have kept: "never_removed ''discussion:123:comments''
        [Register 0 7, Publish ''123'' (JStr ''hello''), CleanupIfEmpty ''123'', GetChannel ''456'']
        manager_with_channel"
    by (simp add: manager_eval)
  have gone: "removes ''discussion:123:comments'' (CleanupIfEmpty ''123'')
        (run_ops [Register 0 7, Deregister 0 7] manager_with_channel)"
    by (simp add: manager_eval)
  note inst = getChannel_identity [OF start, of "''123''", unfolded Let_def key c0,
      folded manager_with_channel_def]
  have same: "fst (getChannel ''123''
        (run_ops
           [Register 0 7, Publish ''123'' (JStr ''hello''), CleanupIfEmpty ''123'', GetChannel ''456'']
           manager_with_channel)) = 0"
    using inst kept by blast
  have new: "fst (getChannel ''123''
        (cleanupIfEmpty ''123'' (run_ops [Register 0 7, Deregister 0 7] manager_with_channel))) \<noteq> 0"
    using inst gone by blast
  have "fst (getChannel ''123''
        (cleanupIfEmpty ''123'' (run_ops [Register 0 7, Deregister 0 7] manager_with_channel))) = 1"
    by (simp add: manager_eval)
  with start key c0 kept same gone show ?thesis by blast
qed

text \<open>
  Claim C9. \<open>cleanupIfEmpty r\<close> deletes the entry of the key of \<open>r\<close> exactly when the map has
  a channel under that key whose list of active sessions is empty, and then changes nothing
  else; otherwise (the channel has active sessions, or there is no channel for the key) it
  returns the state unchanged. The function has no failing branch.
\<close>

theorem cleanupIfEmpty_removes_iff_empty:
  "let k = buildChannelKey m r;
       m' = cleanupIfEmpty r m;
       empty_channel = (\<exists>c. channels m k = Some c \<and> activeSessions m c = [])
   in (empty_channel \<longrightarrow> m' = m\<lparr>channels := (channels m)(k := None)\<rparr>)
    \<and> (\<not> empty_channel \<longrightarrow> m' = m)
    \<and> ((channels m k \<noteq> None \<and> channels m' k = None) \<longleftrightarrow> empty_channel)
    \<and> (\<forall>k'. k' \<noteq> k \<longrightarrow> channels m' k' = channels m k')"
  by (auto simp: cleanupIfEmpty_def Let_def split: option.splits)

text \<open>
  On the README's manager: an empty channel is removed; a channel with a registered session
  stays and the state is unchanged; cleaning up a resource that has no channel leaves the
  state unchanged.
\<close>

theorem cleanupIfEmpty_removes_iff_empty_witness:
  "channels manager_with_channel ''discussion:123:comments'' = Some 0
   \<and> activeSessions manager_with_channel 0 = []
   \<and> channels (cleanupIfEmpty ''123'' manager_with_channel) ''discussion:123:comments'' = None
   \<and> activeSessions (register 0 7 manager_with_channel) 0 = [7]
   \<and> cleanupIfEmpty ''123'' (register 0 7 manager_with_channel) = register 0 7 manager_with_channel
   \<and> channels manager_with_channel ''discussion:999:comments'' = None
   \<and> cleanupIfEmpty ''999'' manager_with_channel = manager_with_channel"
proof -
  have key: "buildChannelKey manager_with_channel ''123'' = ''discussion:123:comments''"
    "buildChannelKey (register 0 7 manager_with_channel) ''123'' = ''discussion:123:comments''"
    "buildChannelKey manager_with_channel ''999'' = ''discussion:999:comments''"
    by (simp_all add: manager_eval)
  have a: "channels manager_with_channel ''discussion:123:comments'' = Some 0"
    "activeSessions manager_with_channel 0 = []"
    by (simp_all add: manager_eval)
  have b: "activeSessions (register 0 7 manager_with_channel) 0 = [7]"
    "channels (register 0 7 manager_with_channel) ''discussion:123:comments'' = Some 0"
    by (simp_all add: manager_eval)
  have c: "channels manager_with_channel ''discussion:999:comments'' = None"
    by (simp add: manager_eval)
  have "channels (cleanupIfEmpty ''123'' manager_with_channel) ''discussion:123:comments'' = None"
    using cleanupIfEmpty_removes_iff_empty [of manager_with_channel "''123''"] a
    by (simp add: Let_def key)
  moreover have "cleanupIfEmpty ''123'' (register 0 7 manager_with_channel)
      = register 0 7 manager_with_channel"
    using cleanupIfEmpty_removes_iff_empty [of "register 0 7 manager_with_channel" "''123''"] b
    by (simp add: Let_def key)
  moreover have "cleanupIfEmpty ''999'' manager_with_channel = manager_with_channel"
    using cleanupIfEmpty_removes_iff_empty [of manager_with_channel "''999''"] c
    by (simp add: Let_def key)
  ultimately show ?thesis using a b c by simp
qed

section \<open>Theorems: query invalidation\<close>

text \<open>
  Claim C3. Whenever the configured \<open>queryKeys\<close>, given directly or computed by the
  function from the event, is absent or an empty list, the handler makes no
  \<open>invalidateQueries\<close> call (and does not fail).
\<close>

theorem useSSEQueryInvalidation_empty_keys_no_calls:
  assumes "keysToInvalidate queryKeys event = None \<or> keysToInvalidate queryKeys event = Some []"
  shows "useSSEQueryInvalidation_onEvent isClient queryKeys event = Inr []"
  using assms by (auto simp: useSSEQueryInvalidation_onEvent_def)

theorem useSSEQueryInvalidation_empty_keys_no_calls_witness:
  "keysToInvalidate (StaticKeys (Some [])) (JObj 0) = Some []
   \<and> useSSEQueryInvalidation_onEvent True (StaticKeys (Some [])) (JObj 0) = Inr []
   \<and> keysToInvalidate (DynamicKeys (\<lambda>event. Some [])) (JObj 0) = Some []
   \<and> useSSEQueryInvalidation_onEvent True (DynamicKeys (\<lambda>event. Some [])) (JObj 0) = Inr []
   \<and> keysToInvalidate (StaticKeys None) (JObj 0) = None
   \<and> useSSEQueryInvalidation_onEvent True (StaticKeys None) (JObj 0) = Inr []"
proof -
  have k: "keysToInvalidate (StaticKeys (Some [])) (JObj 0) = Some []"
    "keysToInvalidate (DynamicKeys (\<lambda>event. Some [])) (JObj 0) = Some []"
    "keysToInvalidate (StaticKeys None) (JObj 0) = None"
    by (simp_all add: keysToInvalidate_def)
  show ?thesis
    using k
      useSSEQueryInvalidation_empty_keys_no_calls [of "StaticKeys (Some [])" "JObj 0" True]
      useSSEQueryInvalidation_empty_keys_no_calls [of "DynamicKeys (\<lambda>event. Some [])" "JObj 0" True]
      useSSEQueryInvalidation_empty_keys_no_calls [of "StaticKeys None" "JObj 0" True]
    by simp
qed

text \<open>
  With keys present the handler invalidates exactly the given keys: a list of keys as it
  is, a single key as one call.
\<close>

lemma useSSEQueryInvalidation_nonempty_keys:
  "useSSEQueryInvalidation_onEvent True
     (StaticKeys (Some [JArr [JStr ''comments'', JStr ''123''], JArr [JStr ''counts'', JStr ''123'']]))
     event
   = Inr [JArr [JStr ''comments'', JStr ''123''], JArr [JStr ''counts'', JStr ''123'']]"
  "useSSEQueryInvalidation_onEvent True (StaticKeys (Some [JStr ''comments'', JStr ''123''])) event
   = Inr [JArr [JStr ''comments'', JStr ''123'']]"
  by (simp_all add: useSSEQueryInvalidation_onEvent_def keysToInvalidate_def first_element_def)

text \<open>
  The version of the file without the guard is the earlier design the specification refers
  to: on an empty list it makes one call whose key is the empty array, which matches every
  query; on absent keys it throws.
\<close>

lemma useSSEQueryInvalidation_unguarded_empty_keys:
  "useSSEQueryInvalidation_onEvent_unguarded (StaticKeys (Some [])) event = Inr [JArr []]"
  "useSSEQueryInvalidation_onEvent_unguarded (StaticKeys None) event = Inl TypeError"
  by (simp_all add: useSSEQueryInvalidation_onEvent_unguarded_def keysToInvalidate_def
        first_element_def)

section \<open>Theorems: memory event broadcaster\<close>

subsection \<open>What the listeners do\<close>

lemma listeners_update_sub [simp]: "listeners (update_sub i f s) = listeners s"
  by (simp add: update_sub_def)

lemma length_subs_update_sub [simp]: "length (subs (update_sub i f s)) = length (subs s)"
  by (simp add: update_sub_def)

lemma nth_subs_update_sub:
  "subs (update_sub i f s) ! j =
     (if j = i \<and> i < length (subs s) then f (subs s ! i) else subs s ! j)"
  by (auto simp add: update_sub_def nth_list_update list_update_beyond not_less)

lemma gstate_listener_push [simp]: "gstate (listener_push x u) = gstate u"
  by (simp add: listener_push_def Let_def)

lemma topic_listener_push [simp]: "topic (listener_push x u) = topic u"
  by (simp add: listener_push_def Let_def)

lemma queue_listener_push [simp]: "queue (listener_push x u) = queue u @ [x]"
  by (simp add: listener_push_def Let_def)

lemma results_listener_push [simp]: "results (listener_push x u) = results u"
  by (simp add: listener_push_def Let_def)

lemma requests_listener_push [simp]: "requests (listener_push x u) = requests u"
  by (simp add: listener_push_def Let_def)

lemma listeners_listener [simp]: "listeners (listener i x s) = listeners s"
  by (simp add: listener_def)

lemma length_subs_listener [simp]: "length (subs (listener i x s)) = length (subs s)"
  by (simp add: listener_def)

lemma nth_subs_listener:
  "subs (listener i x s) ! j =
     (if j = i \<and> i < length (subs s) then listener_push x (subs s ! i) else subs s ! j)"
  by (simp add: listener_def nth_subs_update_sub)

lemma fold_listener_Cons:
  "fold (\<lambda>sid. listener sid x) (i # ls) s = fold (\<lambda>sid. listener sid x) ls (listener i x s)"
  by simp

lemma listeners_fold_listener [simp]: "listeners (fold (\<lambda>sid. listener sid x) ls s) = listeners s"
  by (induction ls arbitrary: s) simp_all

lemma length_subs_fold_listener [simp]: "length (subs (fold (\<lambda>sid. listener sid x) ls s)) = length (subs s)"
  by (induction ls arbitrary: s) simp_all

lemma gstate_fold_listener [simp]: "gstate (subs (fold (\<lambda>sid. listener sid x) ls s) ! j) = gstate (subs s ! j)"
  by (induction ls arbitrary: s) (simp_all add: nth_subs_listener)

lemma topic_fold_listener [simp]: "topic (subs (fold (\<lambda>sid. listener sid x) ls s) ! j) = topic (subs s ! j)"
  by (induction ls arbitrary: s) (simp_all add: nth_subs_listener)

lemma results_fold_listener [simp]: "results (subs (fold (\<lambda>sid. listener sid x) ls s) ! j) = results (subs s ! j)"
  by (induction ls arbitrary: s) (simp_all add: nth_subs_listener)

lemma requests_fold_listener [simp]: "requests (subs (fold (\<lambda>sid. listener sid x) ls s) ! j) = requests (subs s ! j)"
  by (induction ls arbitrary: s) (simp_all add: nth_subs_listener)

lemma fold_listener_other: "j \<notin> set ls \<Longrightarrow> subs (fold (\<lambda>sid. listener sid x) ls s) ! j = subs s ! j"
  by (induction ls arbitrary: s) (simp_all add: nth_subs_listener)

lemma queue_fold_listener:
  "distinct ls \<Longrightarrow> j \<in> set ls \<Longrightarrow> j < length (subs s) \<Longrightarrow>
   queue (subs (fold (\<lambda>sid. listener sid x) ls s) ! j) = queue (subs s ! j) @ [x]"
proof (induction ls arbitrary: s)
  case Nil
  then show ?case by simp
next
  case (Cons i ls)
  show ?case
  proof (cases "j = i")
    case True
    then have "j \<notin> set ls" using Cons.prems by simp
    then show ?thesis
      using True Cons.prems by (simp add: fold_listener_other nth_subs_listener)
  next
    case False
    then show ?thesis
      using Cons by (simp add: nth_subs_listener)
  qed
qed

lemma deliver_fold: "deliver c x s = fold (\<lambda>sid. listener sid x) (listeners s c) s"
  by (simp add: deliver_def)

text \<open>
  Publishing on a topic without listeners changes nothing, except on the topic
  \<open>error\<close>, where the emitter throws.
\<close>

lemma publish_without_listeners:
  "listeners s c = [] \<Longrightarrow> c \<noteq> ''error'' \<Longrightarrow> broadcaster_publish c x s = Inr s"
  by (simp add: broadcaster_publish_def emit_def deliver_fold)

lemma publish_error_without_listeners:
  "listeners s ''error'' = [] \<Longrightarrow> broadcaster_publish ''error'' x s = Inl (UnhandledError x)"
  by (simp add: broadcaster_publish_def emit_def)

text \<open>
  Publishing appends the value once to the queue of every subscription registered on the
  topic and leaves all other subscriptions as they are.
\<close>

lemma publish_enqueues_once:
  assumes "broadcaster_publish c x s = Inr s'" and "distinct (listeners s c)"
  shows "listeners s' = listeners s"
    and "j \<in> set (listeners s c) \<Longrightarrow> j < length (subs s) \<Longrightarrow>
         queue (subs s' ! j) = queue (subs s ! j) @ [x]"
    and "j \<notin> set (listeners s c) \<Longrightarrow> subs s' ! j = subs s ! j"
proof -
  have s': "s' = fold (\<lambda>sid. listener sid x) (listeners s c) s"
    using assms(1) by (simp add: broadcaster_publish_def emit_def deliver_fold split: if_splits)
  show "listeners s' = listeners s" by (simp add: s')
  show "queue (subs s' ! j) = queue (subs s ! j) @ [x]"
    if "j \<in> set (listeners s c)" "j < length (subs s)"
    using that assms(2) by (simp add: s' queue_fold_listener)
  show "subs s' ! j = subs s ! j" if "j \<notin> set (listeners s c)"
    using that by (simp add: s' fold_listener_other)
qed


subsection \<open>Consistency is preserved\<close>

lemma started_listener_push [simp]: "started (listener_push x u) = started u"
  by (simp add: started_def)

lemma started_fold_listener [simp]:
  "started (subs (fold (\<lambda>sid. listener sid x) ls s) ! j) = started (subs s ! j)"
  by (simp add: started_def)

lemma broadcaster_wf_create: "broadcaster_wf createMemoryBroadcaster"
  by (simp add: broadcaster_wf_def createMemoryBroadcaster_def)

lemma broadcaster_wf_frame:
  assumes "broadcaster_wf s" and "listeners s' = listeners s"
    and "length (subs s') = length (subs s)"
    and "\<And>j. j < length (subs s) \<Longrightarrow> topic (subs s' ! j) = topic (subs s ! j)"
    and "\<And>j. j < length (subs s) \<Longrightarrow> started (subs s' ! j) = started (subs s ! j)"
  shows "broadcaster_wf s'"
  using assms unfolding broadcaster_wf_def by simp

lemma broadcaster_wf_deliver: "broadcaster_wf s \<Longrightarrow> broadcaster_wf (deliver c x s)"
  by (rule broadcaster_wf_frame) (simp_all add: deliver_fold)

lemma broadcaster_wf_subscribe: "broadcaster_wf s \<Longrightarrow> broadcaster_wf (snd (subscribe c s))"
  unfolding broadcaster_wf_def subscribe_def
  by (auto simp: nth_append started_def less_Suc_eq)

lemma pump_not_start: "fst (pump rs q res) \<noteq> SuspendedStart"
  by (induction rs q res rule: pump.induct) (auto split: prod.splits option.splits)

lemma remove_last_distinct: "distinct xs \<Longrightarrow> remove_last x xs = removeAll x xs"
proof -
  assume "distinct xs"
  then have "distinct (rev xs)" by simp
  then have "remove1 x (rev xs) = removeAll x (rev xs)" by (rule distinct_remove1_removeAll)
  then show ?thesis by (simp add: remove_last_def removeAll_filter_not_eq rev_filter)
qed

lemma listeners_emitter_off:
  "listeners (emitter_off c i s) =
     (if i \<in> set (listeners s c) then (listeners s)(c := remove_last i (listeners s c))
      else listeners s)"
  by (simp add: emitter_off_def Let_def deliver_fold)

lemma length_subs_emitter_off [simp]: "length (subs (emitter_off c i s)) = length (subs s)"
  by (simp add: emitter_off_def Let_def deliver_fold)

lemma gstate_emitter_off [simp]: "gstate (subs (emitter_off c i s) ! j) = gstate (subs s ! j)"
  by (simp add: emitter_off_def Let_def deliver_fold)

lemma topic_emitter_off [simp]: "topic (subs (emitter_off c i s) ! j) = topic (subs s ! j)"
  by (simp add: emitter_off_def Let_def deliver_fold)

lemma results_emitter_off [simp]: "results (subs (emitter_off c i s) ! j) = results (subs s ! j)"
  by (simp add: emitter_off_def Let_def deliver_fold)

lemma listeners_emitter_on:
  "listeners (emitter_on c i s) = (listeners s)(c := listeners s c @ [i])"
  by (simp add: emitter_on_def Let_def deliver_fold)

lemma length_subs_emitter_on [simp]: "length (subs (emitter_on c i s)) = length (subs s)"
  by (simp add: emitter_on_def Let_def deliver_fold)

lemma gstate_emitter_on [simp]: "gstate (subs (emitter_on c i s) ! j) = gstate (subs s ! j)"
  by (simp add: emitter_on_def Let_def deliver_fold)

lemma topic_emitter_on [simp]: "topic (subs (emitter_on c i s) ! j) = topic (subs s ! j)"
  by (simp add: emitter_on_def Let_def deliver_fold)

lemma results_emitter_on [simp]: "results (subs (emitter_on c i s) ! j) = results (subs s ! j)"
  by (simp add: emitter_on_def Let_def deliver_fold)

lemma requests_emitter_on [simp]: "requests (subs (emitter_on c i s) ! j) = requests (subs s ! j)"
  by (simp add: emitter_on_def Let_def deliver_fold)

text \<open>The effect of resuming a body, in terms of what \<open>pump\<close> returns.\<close>

lemma length_subs_resume [simp]: "length (subs (resume i s)) = length (subs s)"
  by (simp add: resume_def Let_def split: prod.splits)

lemma topic_resume [simp]: "topic (subs (resume i s) ! j) = topic (subs s ! j)"
  by (simp add: resume_def Let_def nth_subs_update_sub split: prod.splits)

lemma gstate_resume:
  "i < length (subs s) \<Longrightarrow>
   gstate (subs (resume i s) ! j) =
     (if j = i then fst (pump (requests (subs s ! i)) (queue (subs s ! i)) (results (subs s ! i)))
      else gstate (subs s ! j))"
  by (simp add: resume_def Let_def nth_subs_update_sub split: prod.splits)

lemma listeners_resume:
  "listeners (resume i s) =
     (if fst (pump (requests (subs s ! i)) (queue (subs s ! i)) (results (subs s ! i))) = Completed
         \<and> i \<in> set (listeners s (topic (subs s ! i)))
      then (listeners s)(topic (subs s ! i) :=
              remove_last i (listeners s (topic (subs s ! i))))
      else listeners s)"
  by (simp add: resume_def Let_def listeners_emitter_off split: prod.splits)

lemma started_resume:
  "i < length (subs s) \<Longrightarrow>
   started (subs (resume i s) ! j) =
     (if j = i
      then fst (pump (requests (subs s ! i)) (queue (subs s ! i)) (results (subs s ! i)))
             \<noteq> Completed
      else started (subs s ! j))"
  using pump_not_start [of "requests (subs s ! i)" "queue (subs s ! i)" "results (subs s ! i)"]
  by (cases "fst (pump (requests (subs s ! i)) (queue (subs s ! i)) (results (subs s ! i)))")
     (simp_all add: started_def gstate_resume)

lemma broadcaster_wfI:
  assumes "\<And>c. distinct (listeners s c)"
    and "\<And>c j. j \<in> set (listeners s c) \<Longrightarrow> j < length (subs s)"
    and "\<And>c j. j \<in> set (listeners s c) \<Longrightarrow> topic (subs s ! j) = c"
    and "\<And>c j. j \<in> set (listeners s c) \<Longrightarrow> started (subs s ! j)"
    and "\<And>j. j < length (subs s) \<Longrightarrow> started (subs s ! j) \<Longrightarrow>
            j \<in> set (listeners s (topic (subs s ! j)))"
  shows "broadcaster_wf s"
  unfolding broadcaster_wf_def using assms by blast

lemma broadcaster_wfD:
  assumes "broadcaster_wf s"
  shows "distinct (listeners s c)"
    and "j \<in> set (listeners s c) \<Longrightarrow> j < length (subs s)"
    and "j \<in> set (listeners s c) \<Longrightarrow> topic (subs s ! j) = c"
    and "j \<in> set (listeners s c) \<Longrightarrow> started (subs s ! j)"
    and "j < length (subs s) \<Longrightarrow> started (subs s ! j) \<Longrightarrow>
            j \<in> set (listeners s (topic (subs s ! j)))"
  using assms unfolding broadcaster_wf_def by blast+

lemma broadcaster_wf_resume:
  assumes wf: "broadcaster_wf s" and i: "i < length (subs s)" and st: "started (subs s ! i)"
  shows "broadcaster_wf (resume i s)"
proof -
  let ?c = "topic (subs s ! i)"
  let ?st = "fst (pump (requests (subs s ! i)) (queue (subs s ! i)) (results (subs s ! i)))"
  note d = broadcaster_wfD [OF wf]
  have mem: "i \<in> set (listeners s ?c)" using d(5) i st by blast
  show ?thesis
  proof (cases "?st = Completed")
    case True
    have ls: "listeners (resume i s) = (listeners s)(?c := removeAll i (listeners s ?c))"
      using True mem by (simp add: listeners_resume remove_last_distinct d(1))
    have sta: "started (subs (resume i s) ! j) = (j \<noteq> i \<and> started (subs s ! j))" for j
      using True i by (simp add: started_resume)
    have old: "j \<in> set (listeners s c) \<and> j \<noteq> i" if "j \<in> set (listeners (resume i s) c)" for j c
    proof (cases "c = ?c")
      case True
      then show ?thesis using that by (simp add: ls)
    next
      case False
      then have "j \<in> set (listeners s c)" using that by (simp add: ls)
      moreover from this have "topic (subs s ! j) = c" by (rule d(3))
      ultimately show ?thesis using False by auto
    qed
    show ?thesis
    proof (rule broadcaster_wfI)
      show "distinct (listeners (resume i s) c)" for c
        by (simp add: ls d(1) distinct_removeAll)
      show "j < length (subs (resume i s))" if "j \<in> set (listeners (resume i s) c)" for c j
        using old [OF that] d(2) by auto
      show "topic (subs (resume i s) ! j) = c" if "j \<in> set (listeners (resume i s) c)" for c j
        using old [OF that] d(3) by auto
      show "started (subs (resume i s) ! j)" if "j \<in> set (listeners (resume i s) c)" for c j
        using old [OF that] d(4) by (auto simp add: sta)
      show "j \<in> set (listeners (resume i s) (topic (subs (resume i s) ! j)))"
        if "j < length (subs (resume i s))" "started (subs (resume i s) ! j)" for j
      proof -
        have "j \<noteq> i" "started (subs s ! j)" "j < length (subs s)" using that by (simp_all add: sta)
        then have "j \<in> set (listeners s (topic (subs s ! j)))" using d(5) by blast
        then show ?thesis using \<open>j \<noteq> i\<close> by (auto simp add: ls)
      qed
    qed
  next
    case False
    have ls: "listeners (resume i s) = listeners s"
      using False by (simp add: listeners_resume)
    have sta: "started (subs (resume i s) ! j) = started (subs s ! j)" for j
      using False i st by (simp add: started_resume)
    show ?thesis
      using wf by (rule broadcaster_wf_frame) (simp_all add: ls sta)
  qed
qed

lemma broadcaster_wf_update_started:
  assumes "broadcaster_wf s" and "\<And>u. topic (f u) = topic u"
    and "started (f (subs s ! i)) = started (subs s ! i)"
  shows "broadcaster_wf (update_sub i f s)"
  using assms(1)
  by (rule broadcaster_wf_frame) (auto simp: nth_subs_update_sub assms(2,3))

lemma broadcaster_wf_gen_next:
  assumes wf: "broadcaster_wf s" and i: "i < length (subs s)"
  shows "broadcaster_wf (gen_next i s)"
proof (cases "gstate (subs s ! i)")
  case SuspendedStart
  let ?c = "topic (subs s ! i)"
  let ?s1 = "update_sub i (\<lambda>u. u\<lparr>gstate := Executing, queue := [], resolveNext := False,
                                   requests := [Next]\<rparr>) s"
  let ?s2 = "emitter_on ?c i ?s1"
  have dist: "\<And>c. distinct (listeners s c)"
    and reg: "\<And>c j. j \<in> set (listeners s c) \<Longrightarrow>
                j < length (subs s) \<and> topic (subs s ! j) = c \<and> started (subs s ! j)"
    and all: "\<And>j c. j < length (subs s) \<Longrightarrow> started (subs s ! j) \<Longrightarrow>
                topic (subs s ! j) = c \<Longrightarrow> j \<in> set (listeners s c)"
    using wf unfolding broadcaster_wf_def by blast+
  have notin: "i \<notin> set (listeners s c)" for c
    using reg [of i c] SuspendedStart by (auto simp: started_def)
  have ls2: "listeners ?s2 = (listeners s)(?c := listeners s ?c @ [i])"
    by (simp add: listeners_emitter_on)
  have sta2: "started (subs ?s2 ! j) = (j = i \<or> started (subs s ! j))" for j
    using i SuspendedStart by (auto simp add: started_def nth_subs_update_sub)
  have top2: "topic (subs ?s2 ! j) = topic (subs s ! j)" for j
    by (simp add: nth_subs_update_sub)
  have old: "j = i \<and> c = ?c \<or> j \<in> set (listeners s c)" if "j \<in> set (listeners ?s2 c)" for j c
    using that unfolding ls2 by (cases "c = ?c") auto
  have wf2: "broadcaster_wf ?s2"
  proof (rule broadcaster_wfI)
    show "distinct (listeners ?s2 c)" for c
      unfolding ls2 using dist notin by simp
    show "j < length (subs ?s2)" if "j \<in> set (listeners ?s2 c)" for c j
      using old [OF that] reg i by auto
    show "topic (subs ?s2 ! j) = c" if "j \<in> set (listeners ?s2 c)" for c j
      using old [OF that] reg unfolding top2 by auto
    show "started (subs ?s2 ! j)" if "j \<in> set (listeners ?s2 c)" for c j
      using old [OF that] reg unfolding sta2 by auto
    show "j \<in> set (listeners ?s2 (topic (subs ?s2 ! j)))"
      if "j < length (subs ?s2)" "started (subs ?s2 ! j)" for j
    proof (cases "j = i")
      case True
      then show ?thesis unfolding ls2 top2 by simp
    next
      case False
      then have "j \<in> set (listeners s (topic (subs s ! j)))"
        using that all unfolding sta2 by simp
      then show ?thesis unfolding ls2 top2 by auto
    qed
  qed
  have "started (subs ?s2 ! i)"
    using i by (simp add: started_def nth_subs_update_sub)
  then have "broadcaster_wf (resume i ?s2)"
    using wf2 i by (intro broadcaster_wf_resume) simp_all
  then show ?thesis using SuspendedStart by (simp add: gen_next_def)
next
  case SuspendedYield
  let ?s1 = "update_sub i (\<lambda>u. u\<lparr>gstate := Executing, requests := [Next]\<rparr>) s"
  have "broadcaster_wf ?s1"
    using wf SuspendedYield by (intro broadcaster_wf_update_started) (simp_all add: started_def)
  moreover have "started (subs ?s1 ! i)"
    using i by (simp add: started_def nth_subs_update_sub)
  ultimately have "broadcaster_wf (resume i ?s1)"
    using i by (intro broadcaster_wf_resume) simp_all
  then show ?thesis using SuspendedYield by (simp add: gen_next_def)
next
  case Executing
  then show ?thesis
    using wf by (simp add: gen_next_def broadcaster_wf_update_started started_def)
next
  case Completed
  then show ?thesis
    using wf by (simp add: gen_next_def broadcaster_wf_update_started started_def)
qed

lemma broadcaster_wf_gen_return:
  assumes wf: "broadcaster_wf s" and i: "i < length (subs s)"
  shows "broadcaster_wf (gen_return i s)"
proof (cases "gstate (subs s ! i)")
  case SuspendedStart
  have reg: "\<And>c j. j \<in> set (listeners s c) \<Longrightarrow>
                j < length (subs s) \<and> topic (subs s ! j) = c \<and> started (subs s ! j)"
    using wf unfolding broadcaster_wf_def by blast
  have notin: "i \<notin> set (listeners s c)" for c
    using reg [of i c] SuspendedStart by (auto simp: started_def)
  have "broadcaster_wf (update_sub i (\<lambda>u. u\<lparr>gstate := Completed, results := results u @ [Done]\<rparr>) s)"
    using wf
    by (rule broadcaster_wf_frame)
       (auto simp: nth_subs_update_sub started_def SuspendedStart)
  then show ?thesis using SuspendedStart by (simp add: gen_return_def)
next
  case SuspendedYield
  let ?s1 = "update_sub i (\<lambda>u. u\<lparr>gstate := Executing, requests := [Return]\<rparr>) s"
  have "broadcaster_wf ?s1"
    using wf SuspendedYield by (intro broadcaster_wf_update_started) (simp_all add: started_def)
  moreover have "started (subs ?s1 ! i)"
    using i by (simp add: started_def nth_subs_update_sub)
  ultimately have "broadcaster_wf (resume i ?s1)"
    using i by (intro broadcaster_wf_resume) simp_all
  then show ?thesis using SuspendedYield by (simp add: gen_return_def)
next
  case Executing
  then show ?thesis
    using wf by (simp add: gen_return_def broadcaster_wf_update_started started_def)
next
  case Completed
  then show ?thesis
    using wf by (simp add: gen_return_def broadcaster_wf_update_started started_def)
qed

lemma broadcaster_wf_act:
  assumes "broadcaster_wf s" and "act a s = Inr s'"
  shows "broadcaster_wf s'"
proof (cases a)
  case (DoSubscribe c)
  then show ?thesis using assms by (auto simp: broadcaster_wf_subscribe)
next
  case (DoNext i)
  then show ?thesis using assms by (auto simp: broadcaster_wf_gen_next)
next
  case (DoReturn i)
  then show ?thesis using assms by (auto simp: broadcaster_wf_gen_return)
next
  case (DoPublish c d)
  then show ?thesis
    using assms
    by (auto simp: broadcaster_publish_def emit_def broadcaster_wf_deliver split: if_splits)
next
  case (DoKeepAlive i)
  then show ?thesis
    using assms
    by (auto simp: keepalive_timeout_def started_def intro!: broadcaster_wf_update_started)
next
  case (DoWake i)
  then show ?thesis
    using assms by (auto simp: wake_def started_def intro!: broadcaster_wf_resume)
qed

lemma broadcaster_wf_run:
  "broadcaster_wf s \<Longrightarrow> run as s = Inr s' \<Longrightarrow> broadcaster_wf s'"
proof (induction as arbitrary: s)
  case Nil
  then show ?case by simp
next
  case (Cons a as)
  then show ?case
    by (auto split: sum.splits dest: broadcaster_wf_act)
qed

lemma broadcaster_wf_reachable:
  "run as createMemoryBroadcaster = Inr s \<Longrightarrow> broadcaster_wf s"
  by (rule broadcaster_wf_run [OF broadcaster_wf_create])

subsection \<open>A subscription that is not registered is out of reach of the others\<close>

lemma set_remove_last: "set (remove_last x xs) \<subseteq> set xs"
  using set_remove1_subset [of x "rev xs"] by (simp add: remove_last_def)

lemma nth_subs_emitter_on_other:
  "j \<notin> set (listeners s ''newListener'') \<Longrightarrow> subs (emitter_on c i s) ! j = subs s ! j"
  by (simp add: emitter_on_def Let_def deliver_fold fold_listener_other)

lemma nth_subs_emitter_off_other:
  "j \<notin> set (listeners s ''removeListener'') \<Longrightarrow> subs (emitter_off c i s) ! j = subs s ! j"
proof -
  assume j: "j \<notin> set (listeners s ''removeListener'')"
  then have "j \<notin> set (remove_last i (listeners s ''removeListener''))"
    using set_remove_last [of i "listeners s ''removeListener''"] by blast
  with j show ?thesis
    by (auto simp add: emitter_off_def Let_def deliver_fold fold_listener_other)
qed

lemma nth_subs_resume_other:
  "j \<noteq> i \<Longrightarrow> j \<notin> set (listeners s ''removeListener'') \<Longrightarrow>
   subs (resume i s) ! j = subs s ! j"
  by (simp add: resume_def Let_def nth_subs_emitter_off_other nth_subs_update_sub
           split: prod.splits)

lemma unregistered:
  "broadcaster_wf s \<Longrightarrow> \<not> started (subs s ! j) \<Longrightarrow> j \<notin> set (listeners s c)"
  using broadcaster_wfD(4) by blast

lemma act_leaves_unstarted:
  assumes wf: "broadcaster_wf s" and j: "j < length (subs s)"
    and st: "gstate (subs s ! j) = SuspendedStart"
    and a: "a \<noteq> DoNext j" "a \<noteq> DoReturn j" and s': "act a s = Inr s'"
  shows "subs s' ! j = subs s ! j \<and> j < length (subs s')"
proof -
  have ns: "\<not> started (subs s ! j)" using st by (simp add: started_def)
  note out = unregistered [OF wf ns]
  show ?thesis
  proof (cases a)
    case (DoSubscribe c)
    then show ?thesis using s' j by (auto simp: subscribe_def nth_append)
  next
    case (DoNext i)
    then have ij: "i \<noteq> j" using a by simp
    show ?thesis
    proof (cases "i < length (subs s)")
      case False
      then show ?thesis using DoNext s' j by auto
    next
      case True
      have "subs (gen_next i s) ! j = subs s ! j"
        using ij out
        by (cases "gstate (subs s ! i)")
           (simp_all add: gen_next_def nth_subs_resume_other nth_subs_emitter_on_other
              nth_subs_update_sub listeners_emitter_on)
      moreover have "length (subs (gen_next i s)) = length (subs s)"
        by (cases "gstate (subs s ! i)") (simp_all add: gen_next_def)
      ultimately show ?thesis using DoNext s' j True by auto
    qed
  next
    case (DoReturn i)
    then have ij: "i \<noteq> j" using a by simp
    show ?thesis
    proof (cases "i < length (subs s)")
      case False
      then show ?thesis using DoReturn s' j by auto
    next
      case True
      have "subs (gen_return i s) ! j = subs s ! j"
        using ij out
        by (cases "gstate (subs s ! i)")
           (simp_all add: gen_return_def nth_subs_resume_other nth_subs_update_sub)
      moreover have "length (subs (gen_return i s)) = length (subs s)"
        by (cases "gstate (subs s ! i)") (simp_all add: gen_return_def)
      ultimately show ?thesis using DoReturn s' j True by auto
    qed
  next
    case (DoPublish c d)
    then show ?thesis
      using s' j out
      by (auto simp: broadcaster_publish_def emit_def deliver_fold fold_listener_other
               split: if_splits)
  next
    case (DoKeepAlive i)
    then show ?thesis
      using s' j st by (auto simp: keepalive_timeout_def nth_subs_update_sub)
  next
    case (DoWake i)
    show ?thesis
    proof (cases "i = j")
      case True
      then show ?thesis using DoWake s' j st by (auto simp: wake_def)
    next
      case False
      then show ?thesis using DoWake s' j out by (auto simp: wake_def nth_subs_resume_other)
    qed
  qed
qed

lemma run_leaves_unstarted:
  assumes "broadcaster_wf s" and "j < length (subs s)"
    and "gstate (subs s ! j) = SuspendedStart"
    and "\<forall>a \<in> set as. a \<noteq> DoNext j \<and> a \<noteq> DoReturn j" and "run as s = Inr s'"
  shows "subs s' ! j = subs s ! j \<and> j < length (subs s') \<and> broadcaster_wf s'"
  using assms
proof (induction as arbitrary: s)
  case Nil
  then show ?case by simp
next
  case (Cons a as)
  from Cons.prems(5) obtain s1 where s1: "act a s = Inr s1" and rest: "run as s1 = Inr s'"
    by (auto split: sum.splits)
  have a: "a \<noteq> DoNext j" "a \<noteq> DoReturn j" using Cons.prems(4) by simp_all
  have keep: "subs s1 ! j = subs s ! j" "j < length (subs s1)"
    using act_leaves_unstarted [OF Cons.prems(1,2,3) a s1] by simp_all
  have wf1: "broadcaster_wf s1" by (rule broadcaster_wf_act [OF Cons.prems(1) s1])
  have "subs s' ! j = subs s1 ! j \<and> j < length (subs s') \<and> broadcaster_wf s'"
    using Cons.IH [OF wf1 keep(2) _ _ rest] keep(1) Cons.prems(3,4) by simp
  then show ?case using keep(1) by simp
qed

subsection \<open>Starting and closing a generator\<close>

lemma first_next:
  assumes wf: "broadcaster_wf s" and j: "j < length (subs s)"
    and st: "gstate (subs s ! j) = SuspendedStart"
  shows "listeners (gen_next j s) =
           (listeners s)(topic (subs s ! j) := listeners s (topic (subs s ! j)) @ [j])"
    and "gstate (subs (gen_next j s) ! j) = Executing"
    and "queue (subs (gen_next j s) ! j) = []"
    and "results (subs (gen_next j s) ! j) = results (subs s ! j)"
    and "requests (subs (gen_next j s) ! j) = [Next]"
proof -
  let ?c = "topic (subs s ! j)"
  let ?s1 = "update_sub j (\<lambda>u. u\<lparr>gstate := Executing, queue := [], resolveNext := False,
                                   requests := [Next]\<rparr>) s"
  let ?s2 = "emitter_on ?c j ?s1"
  have ns: "\<not> started (subs s ! j)" using st by (simp add: started_def)
  have out: "j \<notin> set (listeners ?s1 ''newListener'')"
    using unregistered [OF wf ns] by simp
  have u2: "subs ?s2 ! j = (subs s ! j)\<lparr>gstate := Executing, queue := [], resolveNext := False,
                                        requests := [Next]\<rparr>"
    using j by (simp add: nth_subs_emitter_on_other [OF out] nth_subs_update_sub)
  have g: "gen_next j s = resume j ?s2" using st by (simp add: gen_next_def)
  have j2: "j < length (subs ?s2)" using j by simp
  show "listeners (gen_next j s) = (listeners s)(?c := listeners s ?c @ [j])"
    unfolding g by (simp add: listeners_resume u2 listeners_emitter_on)
  show "gstate (subs (gen_next j s) ! j) = Executing"
    unfolding g using j2 by (simp add: gstate_resume u2)
  show "queue (subs (gen_next j s) ! j) = []"
    unfolding g using j2
    by (simp add: resume_def Let_def u2 nth_subs_update_sub del: length_subs_emitter_on)
  show "results (subs (gen_next j s) ! j) = results (subs s ! j)"
    unfolding g using j2
    by (simp add: resume_def Let_def u2 nth_subs_update_sub del: length_subs_emitter_on)
  show "requests (subs (gen_next j s) ! j) = [Next]"
    unfolding g using j2
    by (simp add: resume_def Let_def u2 nth_subs_update_sub del: length_subs_emitter_on)
qed

lemma length_removeAll_distinct:
  "distinct xs \<Longrightarrow> x \<in> set xs \<Longrightarrow> length xs = length (removeAll x xs) + 1"
  by (induction xs) auto

lemma close_at_yield:
  assumes wf: "broadcaster_wf s" and j: "j < length (subs s)"
    and st: "gstate (subs s ! j) = SuspendedYield"
  shows "listeners (gen_return j s) =
           (listeners s)(topic (subs s ! j) := removeAll j (listeners s (topic (subs s ! j))))"
    and "j \<in> set (listeners s (topic (subs s ! j)))"
    and "gstate (subs (gen_return j s) ! j) = Completed"
proof -
  let ?c = "topic (subs s ! j)"
  let ?s1 = "update_sub j (\<lambda>u. u\<lparr>gstate := Executing, requests := [Return]\<rparr>) s"
  have g: "gen_return j s = resume j ?s1" using st by (simp add: gen_return_def)
  have sta: "started (subs s ! j)" using st by (simp add: started_def)
  show mem: "j \<in> set (listeners s ?c)" by (rule broadcaster_wfD(5) [OF wf j sta])
  have u1: "subs ?s1 ! j = (subs s ! j)\<lparr>gstate := Executing, requests := [Return]\<rparr>"
    using j by (simp add: nth_subs_update_sub)
  show "listeners (gen_return j s) = (listeners s)(?c := removeAll j (listeners s ?c))"
    unfolding g using mem
    by (simp add: listeners_resume u1 remove_last_distinct broadcaster_wfD(1) [OF wf])
  show "gstate (subs (gen_return j s) ! j) = Completed"
    unfolding g using j by (simp add: gstate_resume u1)
qed

lemma close_again:
  "gstate (subs s ! j) = Completed \<Longrightarrow>
   gen_return j s = update_sub j (\<lambda>u. u\<lparr>results := results u @ [Done]\<rparr>) s"
  by (simp add: gen_return_def)

lemma close_before_start:
  "gstate (subs s ! j) = SuspendedStart \<Longrightarrow>
   gen_return j s = update_sub j (\<lambda>u. u\<lparr>gstate := Completed, results := results u @ [Done]\<rparr>) s"
  by (simp add: gen_return_def)

lemma close_while_executing:
  "gstate (subs s ! j) = Executing \<Longrightarrow>
   gen_return j s = update_sub j (\<lambda>u. u\<lparr>requests := requests u @ [Return]\<rparr>) s"
  by (simp add: gen_return_def)

lemmas broadcaster_eval =
  createMemoryBroadcaster_def subscribe_def gen_next_def gen_return_def update_sub_def
  emitter_on_def emitter_off_def remove_last_def resume_def broadcaster_publish_def emit_def
  deliver_def listener_def listener_push_def wake_def keepalive_timeout_def
  getListenerCount_def Let_def

subsection \<open>Delivery order, and the values that are never delivered\<close>

text \<open>
  The body yields the oldest queued value that is truthy; a falsy value at the head of the
  queue is removed and the body goes on as if it had never been queued.
\<close>

lemma truthy_head_is_yielded:
  "truthy x \<Longrightarrow> pump [Next] (x # q) res = (SuspendedYield, [], q, res @ [Yielded x])"
  by simp

lemma falsy_head_is_dropped:
  "\<not> truthy x \<Longrightarrow> pump (Next # rs) (x # q) res = pump (Next # rs) q res"
  by simp

text \<open>
  Claim C2 fails on the code. With one subscription waiting in \<open>next()\<close>, publishing the
  number 0 delivers nothing: the value is taken from the queue and discarded by
  \<^verbatim>\<open>if (event)\<close>, the \<open>next()\<close> stays pending, and it is the value 7 published
  afterwards that this \<open>next()\<close> receives; the empty string, \<open>false\<close> and \<open>null\<close> are
  lost in the same way, whereas the number 5 is delivered. Moreover publishing on the topic
  \<open>error\<close> without subscribers throws.
\<close>

theorem publish_falsy_value_is_never_yielded:
  "(\<exists>s. run [DoSubscribe ''t'', DoNext 0, DoPublish ''t'' (JNum 0), DoWake 0]
            createMemoryBroadcaster = Inr s
        \<and> getListenerCount ''t'' s = 1 \<and> results (subs s ! 0) = []
        \<and> queue (subs s ! 0) = [] \<and> requests (subs s ! 0) = [Next])
   \<and> (\<exists>s. run [DoSubscribe ''t'', DoNext 0, DoPublish ''t'' (JNum 0), DoWake 0,
                 DoPublish ''t'' (JNum 7), DoWake 0]
            createMemoryBroadcaster = Inr s
        \<and> results (subs s ! 0) = [Yielded (JNum 7)] \<and> queue (subs s ! 0) = [])
   \<and> (\<exists>s. run [DoSubscribe ''t'', DoNext 0, DoPublish ''t'' (JStr ''''),
                 DoPublish ''t'' (JBool False), DoPublish ''t'' JNull, DoWake 0]
            createMemoryBroadcaster = Inr s
        \<and> results (subs s ! 0) = [] \<and> queue (subs s ! 0) = [])
   \<and> (\<exists>s. run [DoSubscribe ''t'', DoNext 0, DoPublish ''t'' (JNum 5), DoWake 0]
            createMemoryBroadcaster = Inr s
        \<and> results (subs s ! 0) = [Yielded (JNum 5)])
   \<and> run [DoPublish ''error'' (JNum 1)] createMemoryBroadcaster = Inl (UnhandledError (JNum 1))"
  by (simp add: broadcaster_eval)

subsection \<open>Registration and removal of the listener\<close>

lemma run_loop_falsy: "\<forall>y \<in> set q. \<not> truthy y \<Longrightarrow> run_loop q = (None, [])"
  by (induction q) simp_all

lemma run_loop_first_truthy:
  "\<forall>y \<in> set q. \<not> truthy y \<Longrightarrow> truthy x \<Longrightarrow> run_loop (q @ [x]) = (Some x, [])"
  by (induction q) simp_all

lemma nth_fold_listener:
  "distinct ls \<Longrightarrow> j \<in> set ls \<Longrightarrow> j < length (subs s) \<Longrightarrow>
   subs (fold (\<lambda>sid. listener sid x) ls s) ! j = listener_push x (subs s ! j)"
proof (induction ls arbitrary: s)
  case Nil
  then show ?case by simp
next
  case (Cons i ls)
  show ?case
  proof (cases "j = i")
    case True
    then have "j \<notin> set ls" using Cons.prems(1) by simp
    then show ?thesis
      using True Cons.prems(3) by (simp add: fold_listener_other nth_subs_listener)
  next
    case False
    then have "j \<in> set ls" using Cons.prems(2) by simp
    then show ?thesis
      using False Cons.prems Cons.IH [of "listener i x s"] by (simp add: nth_subs_listener)
  qed
qed

lemma nth_subs_resume:
  "i < length (subs s) \<Longrightarrow>
   results (subs (resume i s) ! i)
     = snd (snd (snd (pump (requests (subs s ! i)) (queue (subs s ! i)) (results (subs s ! i)))))"
  by (simp add: resume_def Let_def nth_subs_update_sub split: prod.splits)

lemma resume_parked:
  assumes "i < length (subs s)" and "gstate (subs s ! i) = Executing"
    and "pump (requests (subs s ! i)) (queue (subs s ! i)) (results (subs s ! i))
           = (Executing, rs, q, res)"
  shows "resume i s =
           update_sub i (\<lambda>u. u\<lparr>queue := q, resolveNext := True, woken := False,
                                 requests := rs, results := res\<rparr>) s"
proof -
  have "(subs s ! i)\<lparr>gstate := Executing, queue := q, resolveNext := True, woken := False,
                      requests := rs, results := res\<rparr>
        = (subs s ! i)\<lparr>queue := q, resolveNext := True, woken := False,
                        requests := rs, results := res\<rparr>"
    using assms(2) by (cases "subs s ! i") simp
  then show ?thesis
    using assms(1,3)
    by (simp add: resume_def Let_def update_sub_def)
qed

text \<open>
  A generator is closed while its only \<open>next()\<close> is pending and its queue holds nothing
  it would yield. A keep-alive wake-up parks it again with the \<open>return()\<close> still queued;
  the next truthy value published on its topic is yielded to the pending \<open>next()\<close>, and only
  then is the \<open>return()\<close> served and the listener removed.
\<close>

lemma close_pending_keepalive:
  assumes j: "j < length (subs s)" and st: "gstate (subs s ! j) = Executing"
    and rq: "requests (subs s ! j) = [Next]"
    and q: "\<forall>y \<in> set (queue (subs s ! j)). \<not> truthy y"
  shows "listeners (wake j (keepalive_timeout j (gen_return j s))) = listeners s"
    and "gstate (subs (wake j (keepalive_timeout j (gen_return j s))) ! j) = Executing"
    and "requests (subs (wake j (keepalive_timeout j (gen_return j s))) ! j) = [Next, Return]"
    and "results (subs (wake j (keepalive_timeout j (gen_return j s))) ! j)
           = results (subs s ! j)"
proof -
  define s1 where "s1 = keepalive_timeout j (gen_return j s)"
  have s1: "length (subs s1) = length (subs s)" "listeners s1 = listeners s"
    "gstate (subs s1 ! j) = Executing" "woken (subs s1 ! j)"
    "requests (subs s1 ! j) = [Next, Return]" "queue (subs s1 ! j) = queue (subs s ! j)"
    "results (subs s1 ! j) = results (subs s ! j)"
    using j st rq
    by (simp_all add: s1_def close_while_executing [OF st] keepalive_timeout_def
          nth_subs_update_sub)
  have p: "pump (requests (subs s1 ! j)) (queue (subs s1 ! j)) (results (subs s1 ! j))
             = (Executing, [Next, Return], [], results (subs s ! j))"
    using q by (simp add: s1 run_loop_falsy)
  have w: "wake j s1 = resume j s1" by (simp add: wake_def s1)
  have j1: "j < length (subs s1)" using j by (simp add: s1)
  note r = resume_parked [OF j1 s1(3) p]
  show "listeners (wake j (keepalive_timeout j (gen_return j s))) = listeners s"
    and "gstate (subs (wake j (keepalive_timeout j (gen_return j s))) ! j) = Executing"
    and "requests (subs (wake j (keepalive_timeout j (gen_return j s))) ! j) = [Next, Return]"
    and "results (subs (wake j (keepalive_timeout j (gen_return j s))) ! j)
           = results (subs s ! j)"
    unfolding s1_def [symmetric] w r using j1 by (simp_all add: nth_subs_update_sub s1)
qed

lemma close_pending_publish:
  assumes wf: "broadcaster_wf s" and j: "j < length (subs s)"
    and st: "gstate (subs s ! j) = Executing"
    and rq: "requests (subs s ! j) = [Next]"
    and q: "\<forall>y \<in> set (queue (subs s ! j)). \<not> truthy y"
    and x: "truthy x" and rn: "resolveNext (subs s ! j)"
    and pub: "broadcaster_publish (topic (subs s ! j)) x (gen_return j s) = Inr s3"
  shows "listeners (wake j s3) =
           (listeners s)(topic (subs s ! j) := removeAll j (listeners s (topic (subs s ! j))))"
    and "j \<in> set (listeners s (topic (subs s ! j)))"
    and "gstate (subs (wake j s3) ! j) = Completed"
    and "results (subs (wake j s3) ! j) = results (subs s ! j) @ [Yielded x, Done]"
proof -
  let ?c = "topic (subs s ! j)"
  define s1 where "s1 = gen_return j s"
  have s1: "s1 = update_sub j (\<lambda>u. u\<lparr>requests := requests u @ [Return]\<rparr>) s"
    unfolding s1_def by (rule close_while_executing [OF st])
  have "started (subs s ! j)" using st by (simp add: started_def)
  then show reg: "j \<in> set (listeners s ?c)" by (rule broadcaster_wfD(5) [OF wf j])
  have d: "distinct (listeners s ?c)" by (rule broadcaster_wfD(1) [OF wf])
  have l1: "listeners s1 = listeners s" "length (subs s1) = length (subs s)"
    by (simp_all add: s1)
  have u1: "subs s1 ! j = (subs s ! j)\<lparr>requests := [Next, Return]\<rparr>"
    using j rq by (simp add: s1 nth_subs_update_sub)
  have s3: "s3 = fold (\<lambda>sid. listener sid x) (listeners s ?c) s1"
    using pub reg
    by (auto simp add: s1_def [symmetric] broadcaster_publish_def emit_def deliver_fold l1
          split: if_splits)
  have u3: "subs s3 ! j = listener_push x ((subs s ! j)\<lparr>requests := [Next, Return]\<rparr>)"
    unfolding s3 using nth_fold_listener [OF d reg, of s1 x] j by (simp add: l1 u1)
  have f3: "gstate (subs s3 ! j) = Executing" "woken (subs s3 ! j)"
    "requests (subs s3 ! j) = [Next, Return]" "queue (subs s3 ! j) = queue (subs s ! j) @ [x]"
    "results (subs s3 ! j) = results (subs s ! j)" "topic (subs s3 ! j) = ?c"
    using st rn by (simp_all add: u3 listener_push_def Let_def)
  have l3: "listeners s3 = listeners s" "length (subs s3) = length (subs s)"
    by (simp_all add: s3 l1)
  have p: "pump (requests (subs s3 ! j)) (queue (subs s3 ! j)) (results (subs s3 ! j))
             = (Completed, [], [], results (subs s ! j) @ [Yielded x, Done])"
    using q x by (simp add: f3 run_loop_first_truthy)
  have w: "wake j s3 = resume j s3" by (simp add: wake_def f3)
  have j3: "j < length (subs s3)" using j by (simp add: l3)
  have "listeners (resume j s3) =
          (listeners s3)(topic (subs s3 ! j) := remove_last j (listeners s3 (topic (subs s3 ! j))))"
    unfolding listeners_resume p using reg by (simp add: f3(6) l3)
  then show "listeners (wake j s3) = (listeners s)(?c := removeAll j (listeners s ?c))"
    unfolding w by (simp add: f3(6) l3 remove_last_distinct [OF d])
  show "gstate (subs (wake j s3) ! j) = Completed"
    unfolding w gstate_resume [OF j3] p by simp
  show "results (subs (wake j s3) ! j) = results (subs s ! j) @ [Yielded x, Done]"
    unfolding w nth_subs_resume [OF j3] p by simp
qed

text \<open>
  Claim C10 fails on the code in its last part: a generator closed while its \<open>next()\<close> is
  pending keeps its listener, although the \<^verbatim>\<open>finally\<close> block is there to remove it when
  the generator is closed. After \<open>subscribe\<close>, \<open>next()\<close> and \<open>return()\<close> the listener
  count is still 1, and it stays 1 through a keep-alive wake-up and a second
  \<open>return()\<close>; the listener is removed only when a later publish lets the pending
  \<open>next()\<close> yield.
\<close>

theorem close_with_pending_next_keeps_listener:
  "(\<exists>s. run [DoSubscribe ''t'', DoNext 0, DoReturn 0] createMemoryBroadcaster = Inr s
        \<and> getListenerCount ''t'' s = 1 \<and> gstate (subs s ! 0) = Executing
        \<and> requests (subs s ! 0) = [Next, Return])
   \<and> (\<exists>s. run [DoSubscribe ''t'', DoNext 0, DoReturn 0, DoKeepAlive 0, DoWake 0, DoReturn 0]
            createMemoryBroadcaster = Inr s
        \<and> getListenerCount ''t'' s = 1 \<and> gstate (subs s ! 0) = Executing)
   \<and> (\<exists>s. run [DoSubscribe ''t'', DoNext 0, DoReturn 0, DoPublish ''t'' (JNum 5), DoWake 0]
            createMemoryBroadcaster = Inr s
        \<and> getListenerCount ''t'' s = 0 \<and> gstate (subs s ! 0) = Completed
        \<and> results (subs s ! 0) = [Yielded (JNum 5), Done])"
  by (simp add: broadcaster_eval)

text \<open>
  Claim C10, as the code behaves. In every state reached from a new broadcaster:
  \<^item> \<open>subscribe c\<close> leaves all listener arrays as they are. Whatever happens next, short of a
    \<open>next()\<close> or \<open>return()\<close> on the new generator, the generator is in no listener
    array and is not touched: nothing published in that time reaches it. Its first
    \<open>next()\<close> adds exactly one listener to the topic and starts with an empty queue and
    no result.
  \<^item> \<open>return()\<close> on a generator suspended at a \<open>yield\<close> removes its listener, and
    only it: the count of its topic drops by one. A second \<open>return()\<close> only settles as
    done.
  \<^item> \<open>return()\<close> on a generator that never started removes nothing.
  \<^item> \<open>return()\<close> on a generator whose \<open>next()\<close> is pending is only queued behind it:
    nothing else changes, the listener stays registered and the count is what it was, also
    after a second \<open>return()\<close>. When that \<open>next()\<close> is the only pending request and the
    queue holds nothing the body would yield, a keep-alive wake-up parks the body again with
    the listener still registered; the listener is removed only after a value that the body
    yields has been published on the topic and handed to the pending \<open>next()\<close>.
\<close>

theorem subscription_lifecycle:
  assumes reach: "run acts createMemoryBroadcaster = Inr s"
  shows "(let sid = fst (subscribe c s); s1 = snd (subscribe c s)
          in listeners s1 = listeners s
           \<and> (\<forall>more s2.
                 (\<forall>a \<in> set more. a \<noteq> DoNext sid \<and> a \<noteq> DoReturn sid) \<and> run more s1 = Inr s2 \<longrightarrow>
                 (\<forall>c'. sid \<notin> set (listeners s2 c'))
               \<and> subs s2 ! sid = subs s1 ! sid
               \<and> (let s3 = gen_next sid s2
                  in getListenerCount c s3 = getListenerCount c s2 + 1
                   \<and> sid \<in> set (listeners s3 c)
                   \<and> queue (subs s3 ! sid) = [] \<and> results (subs s3 ! sid) = []
                   \<and> gstate (subs s3 ! sid) = Executing)))
       \<and> (\<forall>sid < length (subs s).
            let c = topic (subs s ! sid); s1 = gen_return sid s; s2 = gen_return sid s1
            in (gstate (subs s ! sid) = SuspendedYield \<longrightarrow>
                  sid \<in> set (listeners s c) \<and> sid \<notin> set (listeners s1 c)
                \<and> getListenerCount c s = getListenerCount c s1 + 1
                \<and> (\<forall>c'. c' \<noteq> c \<longrightarrow> listeners s1 c' = listeners s c')
                \<and> gstate (subs s1 ! sid) = Completed
                \<and> s2 = update_sub sid (\<lambda>u. u\<lparr>results := results u @ [Done]\<rparr>) s1
                \<and> listeners s2 = listeners s1)
             \<and> (gstate (subs s ! sid) = SuspendedStart \<longrightarrow>
                  listeners s1 = listeners s \<and> gstate (subs s1 ! sid) = Completed
                \<and> listeners s2 = listeners s1)
             \<and> (gstate (subs s ! sid) = Executing \<longrightarrow>
                  s1 = update_sub sid (\<lambda>u. u\<lparr>requests := requests u @ [Return]\<rparr>) s
                \<and> listeners s1 = listeners s \<and> sid \<in> set (listeners s1 c)
                \<and> getListenerCount c s1 = getListenerCount c s
                \<and> gstate (subs s1 ! sid) = Executing
                \<and> listeners s2 = listeners s \<and> gstate (subs s2 ! sid) = Executing
                \<and> (requests (subs s ! sid) = [Next]
                     \<and> (\<forall>y \<in> set (queue (subs s ! sid)). \<not> truthy y) \<longrightarrow>
                     (let s3 = wake sid (keepalive_timeout sid s1)
                      in listeners s3 = listeners s
                       \<and> gstate (subs s3 ! sid) = Executing
                       \<and> requests (subs s3 ! sid) = [Next, Return]
                       \<and> results (subs s3 ! sid) = results (subs s ! sid))
                   \<and> (\<forall>x s3. truthy x \<and> resolveNext (subs s ! sid)
                              \<and> broadcaster_publish c x s1 = Inr s3 \<longrightarrow>
                        (let s4 = wake sid s3
                         in sid \<notin> set (listeners s4 c)
                          \<and> getListenerCount c s = getListenerCount c s4 + 1
                          \<and> gstate (subs s4 ! sid) = Completed
                          \<and> results (subs s4 ! sid)
                              = results (subs s ! sid) @ [Yielded x, Done])))))"
proof -
  have wf: "broadcaster_wf s" by (rule broadcaster_wf_reachable [OF reach])
  define sid where "sid = fst (subscribe c s)"
  define s1 where "s1 = snd (subscribe c s)"
  have sid: "sid = length (subs s)" by (simp add: sid_def subscribe_def)
  have sub1: "subs s1 ! sid =
      \<lparr>topic = c, gstate = SuspendedStart, queue = [], resolveNext = False, woken = False,
       requests = [], results = []\<rparr>"
    by (simp add: s1_def sid subscribe_def)
  have len1: "sid < length (subs s1)" by (simp add: s1_def sid subscribe_def)
  have ls1: "listeners s1 = listeners s" by (simp add: s1_def subscribe_def)
  have wf1: "broadcaster_wf s1" unfolding s1_def by (rule broadcaster_wf_subscribe [OF wf])
  have st1: "gstate (subs s1 ! sid) = SuspendedStart" by (simp add: sub1)
  have part1: "(\<forall>c'. sid \<notin> set (listeners s2 c'))
               \<and> subs s2 ! sid = subs s1 ! sid
               \<and> (let s3 = gen_next sid s2
                  in getListenerCount c s3 = getListenerCount c s2 + 1
                   \<and> sid \<in> set (listeners s3 c)
                   \<and> queue (subs s3 ! sid) = [] \<and> results (subs s3 ! sid) = []
                   \<and> gstate (subs s3 ! sid) = Executing)"
    if more: "\<forall>a \<in> set more. a \<noteq> DoNext sid \<and> a \<noteq> DoReturn sid" and run2: "run more s1 = Inr s2"
    for more s2
  proof -
    have keep: "subs s2 ! sid = subs s1 ! sid" "sid < length (subs s2)" "broadcaster_wf s2"
      using run_leaves_unstarted [OF wf1 len1 st1 more run2] by simp_all
    have st2: "gstate (subs s2 ! sid) = SuspendedStart" "topic (subs s2 ! sid) = c"
      "results (subs s2 ! sid) = []"
      by (simp_all add: keep(1) sub1)
    have "\<not> started (subs s2 ! sid)" by (simp add: started_def st2)
    then have out: "sid \<notin> set (listeners s2 c')" for c'
      by (rule unregistered [OF keep(3)])
    note fn = first_next [OF keep(3) keep(2) st2(1), unfolded st2]
    show ?thesis
      using out keep(1) fn by (simp add: Let_def getListenerCount_def)
  qed
  have part2: "let c = topic (subs s ! j); s1 = gen_return j s; s2 = gen_return j s1
            in (gstate (subs s ! j) = SuspendedYield \<longrightarrow>
                  j \<in> set (listeners s c) \<and> j \<notin> set (listeners s1 c)
                \<and> getListenerCount c s = getListenerCount c s1 + 1
                \<and> (\<forall>c'. c' \<noteq> c \<longrightarrow> listeners s1 c' = listeners s c')
                \<and> gstate (subs s1 ! j) = Completed
                \<and> s2 = update_sub j (\<lambda>u. u\<lparr>results := results u @ [Done]\<rparr>) s1
                \<and> listeners s2 = listeners s1)
             \<and> (gstate (subs s ! j) = SuspendedStart \<longrightarrow>
                  listeners s1 = listeners s \<and> gstate (subs s1 ! j) = Completed
                \<and> listeners s2 = listeners s1)
             \<and> (gstate (subs s ! j) = Executing \<longrightarrow>
                  s1 = update_sub j (\<lambda>u. u\<lparr>requests := requests u @ [Return]\<rparr>) s
                \<and> listeners s1 = listeners s \<and> j \<in> set (listeners s1 c)
                \<and> getListenerCount c s1 = getListenerCount c s
                \<and> gstate (subs s1 ! j) = Executing
                \<and> listeners s2 = listeners s \<and> gstate (subs s2 ! j) = Executing
                \<and> (requests (subs s ! j) = [Next]
                     \<and> (\<forall>y \<in> set (queue (subs s ! j)). \<not> truthy y) \<longrightarrow>
                     (let s3 = wake j (keepalive_timeout j s1)
                      in listeners s3 = listeners s
                       \<and> gstate (subs s3 ! j) = Executing
                       \<and> requests (subs s3 ! j) = [Next, Return]
                       \<and> results (subs s3 ! j) = results (subs s ! j))
                   \<and> (\<forall>x s3. truthy x \<and> resolveNext (subs s ! j)
                              \<and> broadcaster_publish c x s1 = Inr s3 \<longrightarrow>
                        (let s4 = wake j s3
                         in j \<notin> set (listeners s4 c)
                          \<and> getListenerCount c s = getListenerCount c s4 + 1
                          \<and> gstate (subs s4 ! j) = Completed
                          \<and> results (subs s4 ! j)
                              = results (subs s ! j) @ [Yielded x, Done]))))"
    if j: "j < length (subs s)" for j
  proof -
    let ?c = "topic (subs s ! j)"
    have yield: "j \<in> set (listeners s ?c) \<and> j \<notin> set (listeners (gen_return j s) ?c)
        \<and> getListenerCount ?c s = getListenerCount ?c (gen_return j s) + 1
        \<and> (\<forall>c'. c' \<noteq> ?c \<longrightarrow> listeners (gen_return j s) c' = listeners s c')
        \<and> gstate (subs (gen_return j s) ! j) = Completed
        \<and> gen_return j (gen_return j s)
            = update_sub j (\<lambda>u. u\<lparr>results := results u @ [Done]\<rparr>) (gen_return j s)
        \<and> listeners (gen_return j (gen_return j s)) = listeners (gen_return j s)"
      if st: "gstate (subs s ! j) = SuspendedYield"
    proof -
      note cl = close_at_yield [OF wf j st]
      have d: "distinct (listeners s ?c)" by (rule broadcaster_wfD(1) [OF wf])
      have again: "gen_return j (gen_return j s)
            = update_sub j (\<lambda>u. u\<lparr>results := results u @ [Done]\<rparr>) (gen_return j s)"
        by (rule close_again [OF cl(3)])
      show ?thesis
        using cl(2) cl(3) length_removeAll_distinct [OF d cl(2)]
        by (simp add: cl(1) again getListenerCount_def)
    qed
    have start: "listeners (gen_return j s) = listeners s
        \<and> gstate (subs (gen_return j s) ! j) = Completed
        \<and> listeners (gen_return j (gen_return j s)) = listeners (gen_return j s)"
      if st: "gstate (subs s ! j) = SuspendedStart"
    proof -
      have g: "gstate (subs (gen_return j s) ! j) = Completed"
        using j by (simp add: close_before_start [OF st] nth_subs_update_sub)
      show ?thesis
        using g by (simp add: close_again [OF g]) (simp add: close_before_start [OF st])
    qed
    have exec: "gen_return j s = update_sub j (\<lambda>u. u\<lparr>requests := requests u @ [Return]\<rparr>) s
        \<and> listeners (gen_return j s) = listeners s
        \<and> j \<in> set (listeners (gen_return j s) ?c)
        \<and> getListenerCount ?c (gen_return j s) = getListenerCount ?c s
        \<and> gstate (subs (gen_return j s) ! j) = Executing
        \<and> listeners (gen_return j (gen_return j s)) = listeners s
        \<and> gstate (subs (gen_return j (gen_return j s)) ! j) = Executing"
      if st: "gstate (subs s ! j) = Executing"
    proof -
      have "started (subs s ! j)" using st by (simp add: started_def)
      then have reg: "j \<in> set (listeners s ?c)" by (rule broadcaster_wfD(5) [OF wf j])
      have g: "gstate (subs (gen_return j s) ! j) = Executing"
        using j st by (simp add: close_while_executing [OF st] nth_subs_update_sub)
      have g2: "gstate (subs (gen_return j (gen_return j s)) ! j) = Executing"
        "listeners (gen_return j (gen_return j s)) = listeners s"
        using j g
        by (simp_all add: close_while_executing [OF g] nth_subs_update_sub)
          (simp add: close_while_executing [OF st])
      show ?thesis
        using reg g g2
        by (simp add: getListenerCount_def) (simp add: close_while_executing [OF st])
    qed
    have park: "let s3 = wake j (keepalive_timeout j (gen_return j s))
                in listeners s3 = listeners s
                 \<and> gstate (subs s3 ! j) = Executing
                 \<and> requests (subs s3 ! j) = [Next, Return]
                 \<and> results (subs s3 ! j) = results (subs s ! j)"
      if "gstate (subs s ! j) = Executing" "requests (subs s ! j) = [Next]"
        "\<forall>y \<in> set (queue (subs s ! j)). \<not> truthy y"
      unfolding Let_def using close_pending_keepalive [OF j that] by blast
    have leak: "let s4 = wake j s3
                in j \<notin> set (listeners s4 ?c)
                 \<and> getListenerCount ?c s = getListenerCount ?c s4 + 1
                 \<and> gstate (subs s4 ! j) = Completed
                 \<and> results (subs s4 ! j) = results (subs s ! j) @ [Yielded x, Done]"
      if "gstate (subs s ! j) = Executing" "requests (subs s ! j) = [Next]"
        "\<forall>y \<in> set (queue (subs s ! j)). \<not> truthy y"
        "truthy x" "resolveNext (subs s ! j)"
        "broadcaster_publish ?c x (gen_return j s) = Inr s3" for x s3
    proof -
      note cp = close_pending_publish [OF wf j that]
      have d: "distinct (listeners s ?c)" by (rule broadcaster_wfD(1) [OF wf])
      show ?thesis
        unfolding Let_def
        using cp(3) cp(4) length_removeAll_distinct [OF d cp(2)]
        by (simp add: cp(1) getListenerCount_def)
    qed
    show ?thesis unfolding Let_def using yield start exec park leak unfolding Let_def by blast
  qed
  show ?thesis
    unfolding Let_def sid_def [symmetric] s1_def [symmetric]
    using ls1 part1 part2 unfolding Let_def by blast
qed

text \<open>
  A broadcaster after \<open>subscribe\<close>, \<open>next()\<close>, a publish of 5 and the resumption of the
  body: generator 0 is suspended at its \<open>yield\<close>. A second \<open>subscribe\<close> gives
  generator 1; a publish of 7 and a subscription to another topic leave it unregistered;
  its first \<open>next()\<close> makes the count 2 and finds an empty queue. Closing generator 0
  brings the count from 1 to 0, and closing it again leaves it at 0.

  A broadcaster after \<open>subscribe\<close> and \<open>next()\<close> alone: generator 0 is waiting for an
  event. Closing it leaves the count at 1 with the \<open>return()\<close> queued, a keep-alive
  wake-up leaves it at 1, and only the publish of 5 brings it to 0, after 5 has been yielded.
\<close>

theorem subscription_lifecycle_witness:
  "(\<exists>s. run [DoSubscribe ''t'', DoNext 0, DoPublish ''t'' (JNum 5), DoWake 0]
          createMemoryBroadcaster = Inr s
      \<and> fst (subscribe ''t'' s) = 1
      \<and> getListenerCount ''t'' (snd (subscribe ''t'' s)) = 1
      \<and> (\<exists>s2. run [DoPublish ''t'' (JNum 7), DoSubscribe ''u''] (snd (subscribe ''t'' s)) = Inr s2
            \<and> getListenerCount ''t'' s2 = 1
            \<and> getListenerCount ''t'' (gen_next 1 s2) = 2
            \<and> queue (subs (gen_next 1 s2) ! 1) = []
            \<and> results (subs (gen_next 1 s2) ! 1) = [])
      \<and> gstate (subs s ! 0) = SuspendedYield
      \<and> getListenerCount ''t'' s = 1
      \<and> getListenerCount ''t'' (gen_return 0 s) = 0
      \<and> getListenerCount ''t'' (gen_return 0 (gen_return 0 s)) = 0)
   \<and> (\<exists>s. run [DoSubscribe ''t'', DoNext 0] createMemoryBroadcaster = Inr s
      \<and> gstate (subs s ! 0) = Executing \<and> requests (subs s ! 0) = [Next]
      \<and> queue (subs s ! 0) = [] \<and> resolveNext (subs s ! 0)
      \<and> getListenerCount ''t'' s = 1
      \<and> getListenerCount ''t'' (gen_return 0 s) = 1
      \<and> requests (subs (gen_return 0 s) ! 0) = [Next, Return]
      \<and> getListenerCount ''t'' (gen_return 0 (gen_return 0 s)) = 1
      \<and> getListenerCount ''t'' (wake 0 (keepalive_timeout 0 (gen_return 0 s))) = 1
      \<and> gstate (subs (wake 0 (keepalive_timeout 0 (gen_return 0 s))) ! 0) = Executing
      \<and> (\<exists>s3. broadcaster_publish ''t'' (JNum 5) (gen_return 0 s) = Inr s3
            \<and> getListenerCount ''t'' (wake 0 s3) = 0
            \<and> gstate (subs (wake 0 s3) ! 0) = Completed
            \<and> results (subs (wake 0 s3) ! 0) = [Yielded (JNum 5), Done]))"
proof -
  define B where "B = \<lparr>listeners = (\<lambda>_. [])(''t'' := [0::nat]),
     subs = [\<lparr>topic = ''t'', gstate = SuspendedYield, queue = [], resolveNext = False,
              woken = False, requests = [], results = [Yielded (JNum 5)]\<rparr>]\<rparr>"
  define B2 where "B2 = \<lparr>listeners = (\<lambda>_. [])(''t'' := [0::nat]),
     subs = [\<lparr>topic = ''t'', gstate = SuspendedYield, queue = [JNum 7], resolveNext = False,
              woken = False, requests = [], results = [Yielded (JNum 5)]\<rparr>,
             \<lparr>topic = ''t'', gstate = SuspendedStart, queue = [], resolveNext = False,
              woken = False, requests = [], results = []\<rparr>,
             \<lparr>topic = ''u'', gstate = SuspendedStart, queue = [], resolveNext = False,
              woken = False, requests = [], results = []\<rparr>]\<rparr>"
  have r: "run [DoSubscribe ''t'', DoNext 0, DoPublish ''t'' (JNum 5), DoWake 0]
             createMemoryBroadcaster = Inr B"
    by (simp add: broadcaster_eval B_def)
  have sid: "fst (subscribe ''t'' B) = 1" by (simp add: subscribe_def B_def)
  have r2: "run [DoPublish ''t'' (JNum 7), DoSubscribe ''u''] (snd (subscribe ''t'' B)) = Inr B2"
    by (simp add: broadcaster_eval B_def B2_def)
  have more: "\<forall>a \<in> set [DoPublish ''t'' (JNum 7), DoSubscribe ''u'']. a \<noteq> DoNext 1 \<and> a \<noteq> DoReturn 1"
    by simp
  have len: "0 < length (subs B)" and st: "gstate (subs B ! 0) = SuspendedYield"
    and top: "topic (subs B ! 0) = ''t''"
    by (simp_all add: B_def)
  have n1: "getListenerCount ''t'' B = 1" "getListenerCount ''t'' B2 = 1"
    "getListenerCount ''t'' (snd (subscribe ''t'' B)) = 1"
    by (simp_all add: getListenerCount_def subscribe_def B_def B2_def)
  note T = subscription_lifecycle [OF r, of "''t''", unfolded Let_def sid]
  note first = T [THEN conjunct1, THEN conjunct2, rule_format, OF conjI, OF more r2]
  note close = T [THEN conjunct2, rule_format, OF len, THEN conjunct1, rule_format, OF st,
                  unfolded top]
  have a: "getListenerCount ''t'' (gen_next 1 B2) = 2"
    "queue (subs (gen_next 1 B2) ! 1) = []" "results (subs (gen_next 1 B2) ! 1) = []"
    using first n1 by simp_all
  have b: "getListenerCount ''t'' (gen_return 0 B) = 0"
    using close n1 by simp
  have c: "getListenerCount ''t'' (gen_return 0 (gen_return 0 B)) = 0"
    using close b by (simp add: getListenerCount_def)
  have one: "\<exists>s. run [DoSubscribe ''t'', DoNext 0, DoPublish ''t'' (JNum 5), DoWake 0]
          createMemoryBroadcaster = Inr s
      \<and> fst (subscribe ''t'' s) = 1
      \<and> getListenerCount ''t'' (snd (subscribe ''t'' s)) = 1
      \<and> (\<exists>s2. run [DoPublish ''t'' (JNum 7), DoSubscribe ''u''] (snd (subscribe ''t'' s)) = Inr s2
            \<and> getListenerCount ''t'' s2 = 1
            \<and> getListenerCount ''t'' (gen_next 1 s2) = 2
            \<and> queue (subs (gen_next 1 s2) ! 1) = []
            \<and> results (subs (gen_next 1 s2) ! 1) = [])
      \<and> gstate (subs s ! 0) = SuspendedYield
      \<and> getListenerCount ''t'' s = 1
      \<and> getListenerCount ''t'' (gen_return 0 s) = 0
      \<and> getListenerCount ''t'' (gen_return 0 (gen_return 0 s)) = 0"
    using r sid r2 n1 a st b c by blast
  define E where "E = \<lparr>listeners = (\<lambda>_. [])(''t'' := [0::nat]),
     subs = [\<lparr>topic = ''t'', gstate = Executing, queue = [], resolveNext = True,
              woken = False, requests = [Next], results = []\<rparr>]\<rparr>"
  have rE: "run [DoSubscribe ''t'', DoNext 0] createMemoryBroadcaster = Inr E"
    by (simp add: broadcaster_eval E_def)
  have lenE: "0 < length (subs E)" and stE: "gstate (subs E ! 0) = Executing"
    and topE: "topic (subs E ! 0) = ''t''" and rqE: "requests (subs E ! 0) = [Next]"
    and qE: "queue (subs E ! 0) = []" and rnE: "resolveNext (subs E ! 0)"
    and resE: "results (subs E ! 0) = []" and nE: "getListenerCount ''t'' E = 1"
    by (simp_all add: E_def getListenerCount_def)
  have quiet: "requests (subs E ! 0) = [Next] \<and> (\<forall>y \<in> set (queue (subs E ! 0)). \<not> truthy y)"
    by (simp add: rqE qE)
  obtain s3 where pub: "broadcaster_publish ''t'' (JNum 5) (gen_return 0 E) = Inr s3"
    by (simp add: broadcaster_eval E_def)
  have go: "truthy (JNum 5) \<and> resolveNext (subs E ! 0)
            \<and> broadcaster_publish ''t'' (JNum 5) (gen_return 0 E) = Inr s3"
    using rnE pub by simp
  note X = subscription_lifecycle [OF rE, of "''t''", unfolded Let_def, THEN conjunct2,
      rule_format, OF lenE, THEN conjunct2, THEN conjunct2, rule_format, OF stE, unfolded topE]
  note queued = X [THEN conjunct1]
  note kept = X [THEN conjunct2, THEN conjunct2, THEN conjunct2, THEN conjunct1]
  note again = X [THEN conjunct2, THEN conjunct2, THEN conjunct2, THEN conjunct2,
      THEN conjunct2, THEN conjunct1]
  note pending = X [THEN conjunct2, THEN conjunct2, THEN conjunct2, THEN conjunct2,
      THEN conjunct2, THEN conjunct2, THEN conjunct2, THEN mp, OF quiet]
  note parked = pending [THEN conjunct1]
  note removed = pending [THEN conjunct2, THEN spec, THEN spec, THEN mp, OF go]
  have e1: "getListenerCount ''t'' (gen_return 0 E) = 1"
    using kept nE by simp
  have e2: "requests (subs (gen_return 0 E) ! 0) = [Next, Return]"
    unfolding queued by (simp add: E_def update_sub_def)
  have e3: "getListenerCount ''t'' (gen_return 0 (gen_return 0 E)) = 1"
    using again nE by (simp add: getListenerCount_def)
  have e4: "getListenerCount ''t'' (wake 0 (keepalive_timeout 0 (gen_return 0 E))) = 1"
    "gstate (subs (wake 0 (keepalive_timeout 0 (gen_return 0 E))) ! 0) = Executing"
    using parked nE by (simp_all add: getListenerCount_def)
  have e5: "getListenerCount ''t'' (wake 0 s3) = 0"
    "gstate (subs (wake 0 s3) ! 0) = Completed"
    "results (subs (wake 0 s3) ! 0) = [Yielded (JNum 5), Done]"
    using removed nE resE by simp_all
  have two: "\<exists>s. run [DoSubscribe ''t'', DoNext 0] createMemoryBroadcaster = Inr s
      \<and> gstate (subs s ! 0) = Executing \<and> requests (subs s ! 0) = [Next]
      \<and> queue (subs s ! 0) = [] \<and> resolveNext (subs s ! 0)
      \<and> getListenerCount ''t'' s = 1
      \<and> getListenerCount ''t'' (gen_return 0 s) = 1
      \<and> requests (subs (gen_return 0 s) ! 0) = [Next, Return]
      \<and> getListenerCount ''t'' (gen_return 0 (gen_return 0 s)) = 1
      \<and> getListenerCount ''t'' (wake 0 (keepalive_timeout 0 (gen_return 0 s))) = 1
      \<and> gstate (subs (wake 0 (keepalive_timeout 0 (gen_return 0 s))) ! 0) = Executing
      \<and> (\<exists>s3. broadcaster_publish ''t'' (JNum 5) (gen_return 0 s) = Inr s3
            \<and> getListenerCount ''t'' (wake 0 s3) = 0
            \<and> gstate (subs (wake 0 s3) ! 0) = Completed
            \<and> results (subs (wake 0 s3) ! 0) = [Yielded (JNum 5), Done])"
    using rE stE rqE qE rnE nE e1 e2 e3 e4 pub e5 by blast
  show ?thesis using one two by (rule conjI)
qed
section \<open>Theorems: auto-reconnecting stream hook\<close>

lemmas hook_eval =
  render_def shouldStream_of_def deps_of_def rerender_def reconnect_def handleVisibilityChange_def
  effect_body_def effect_cleanup_def connectToStream_def handle_error_def stream_opened_def
  after_loop_def scheduleReconnect_def timer_fired_def promise_resolved_def
  promise_rejected_def stream_item_def stream_ended_def stream_threw_def external_abort_def
  abort_current_def clear_reconnect_timeout_def is_mounted_def should_stream_def
  options_of_def combinedSignal_aborted_def Let_def

subsection \<open>A stream factory that keeps failing\<close>






lemma phase_of_retry_pending: "phase_of (retry_pending p rnd e m) = Reconnecting"
proof -
  have "live_timer (retry_pending p rnd e m) m"
    by (simp add: live_timer_def retry_pending_def is_mounted_def should_stream_def)
  then have "\<exists>t < timersMade (retry_pending p rnd e m). live_timer (retry_pending p rnd e m) t"
    by (intro exI [of _ m]) (simp add: retry_pending_def)
  moreover have "\<not> live_connection (retry_pending p rnd e m) ph cid" for ph cid
    by (simp add: live_connection_def retry_pending_def)
  moreover have "\<exists>eff < length (effects (retry_pending p rnd e m)).
      is_mounted (retry_pending p rnd e m) eff \<and> should_stream (retry_pending p rnd e m) eff"
    by (intro exI [of _ 0]) (simp add: retry_pending_def is_mounted_def should_stream_def)
  ultimately show ?thesis by (simp add: phase_of_def)
qed







subsection \<open>The retry predicate and the retry cap\<close>

text \<open>Every error path runs the \<open>catch\<close> block.\<close>

lemma error_paths:
  "connections s cid = Some c \<Longrightarrow> cphase c = Iterating \<Longrightarrow>
   step (StreamThrew cid err) s =
     handle_error (owner c) (controller c) err (s\<lparr>connections := (connections s)(cid := None)\<rparr>)"
  "connections s cid = Some c \<Longrightarrow> cphase c = AwaitingStream \<Longrightarrow>
   step (PromiseRejected cid err) s =
     handle_error (owner c) (controller c) err (s\<lparr>connections := (connections s)(cid := None)\<rparr>)"
  by (simp_all add: stream_threw_def promise_rejected_def)

text \<open>
  Claim C5 as stated fails on the code: with \<open>maxRetries = 0\<close> and a retry predicate that
  returns false, the first stream error stops the hook and \<open>onMaxRetriesReached\<close> is
  called all the same.
\<close>

theorem refused_retry_at_cap_calls_onMaxRetriesReached:
  "let s = run_events [Render (refusing_options 0), StreamThrew 0 ''forbidden'']
             (initial True (\<lambda>k. Finite (1 / 2)))
   in shouldRetry (refusing_options 0) = Some (\<lambda>err attempt. False)
    \<and> calls s = [OnConnect, OnDisconnect, OnError ''forbidden'' 0,
                  OnMaxRetriesReached ''forbidden'']
    \<and> timers s = Map.empty \<and> connections s = Map.empty \<and> \<not> isConnected s"
  by (simp add: hook_eval initial_def refusing_options_def zero_enat_def [symmetric])

text \<open>
  Claim C5, amended. When the \<open>catch\<close> block handles an error of a connection whose
  effect run is mounted and streaming and whose signal is not aborted, it calls
  \<open>onDisconnect\<close> and \<open>onError\<close>, and then:
  \<^item> if the attempt counter is below \<open>maxRetries\<close> and the predicate returns false, it
    calls nothing else and schedules nothing: no \<open>onMaxRetriesReached\<close>;
  \<^item> if the attempt counter is not below \<open>maxRetries\<close>, it calls \<open>onMaxRetriesReached\<close>
    and schedules nothing, whatever the predicate returns;
  \<^item> otherwise it schedules a reconnect and increments the attempt counter.
  So \<open>onMaxRetriesReached\<close> is called exactly when the cap forbids the retry. In the two
  stopping cases the hook is in phase \<open>Stopped\<close> if nothing else of it is live.
\<close>

theorem retry_decision:
  assumes "is_mounted s eff" and "should_stream s eff" and "\<not> combinedSignal_aborted s eff ctrl"
  shows "let s' = handle_error eff ctrl err s;
             n = currentAttemptRef s;
             retry = (case shouldRetry (options_of s eff) of None \<Rightarrow> True | Some f \<Rightarrow> f err n);
             below = (enat n < maxRetries (options_of s eff));
             quiet = ((\<forall>ph cid. \<not> live_connection s ph cid) \<and> (\<forall>t. \<not> live_timer s t))
         in (\<not> retry \<and> below \<longrightarrow>
               calls s' = calls s @ [OnDisconnect, OnError err n]
             \<and> timers s' = timers s \<and> connections s' = connections s
             \<and> streamCalls s' = streamCalls s \<and> currentAttemptRef s' = n
             \<and> \<not> isConnected s' \<and> (quiet \<longrightarrow> phase_of s' = Stopped))
          \<and> (\<not> below \<longrightarrow>
               calls s' = calls s @ [OnDisconnect, OnError err n, OnMaxRetriesReached err]
             \<and> timers s' = timers s \<and> connections s' = connections s
             \<and> streamCalls s' = streamCalls s \<and> currentAttemptRef s' = n
             \<and> \<not> isConnected s' \<and> (quiet \<longrightarrow> phase_of s' = Stopped))
          \<and> (retry \<and> below \<longrightarrow>
               calls s' = calls s @ [OnDisconnect, OnError err n]
             \<and> currentAttemptRef s' = n + 1 \<and> isReconnecting s'
             \<and> (\<exists>delay. timers s' = (timers s)(timersMade s \<mapsto> (eff, delay))))
          \<and> (OnMaxRetriesReached err \<in> set (drop (length (calls s)) (calls s')) \<longleftrightarrow> \<not> below)"
proof -
  let ?s1 = "s\<lparr>error := Some err, isConnected := False,
               calls := calls s @ [OnDisconnect, OnError err (currentAttemptRef s)]\<rparr>"
  let ?retry = "case shouldRetry (options_of s eff) of None \<Rightarrow> True
                | Some f \<Rightarrow> f err (currentAttemptRef s)"
  let ?below = "enat (currentAttemptRef s) < maxRetries (options_of s eff)"
  have guard: "\<not> (\<not> is_mounted s eff \<or> combinedSignal_aborted s eff ctrl)"
    using assms by simp
  have opt: "options_of ?s1 eff = options_of s eff" by (simp add: options_of_def)
  have ss: "should_stream ?s1 eff" using assms(2) by (simp add: should_stream_def)
  have h: "handle_error eff ctrl err s =
      (if ?retry \<and> ?below then scheduleReconnect eff ?s1
       else if \<not> ?below then ?s1\<lparr>calls := calls ?s1 @ [OnMaxRetriesReached err]\<rparr>
       else ?s1)"
    unfolding handle_error_def using guard
    by (cases "shouldRetry (options_of s eff)") (simp_all add: Let_def opt ss)
  have live: "\<exists>e < length (effects s'). is_mounted s' e \<and> should_stream s' e"
    if "effects s' = effects s" for s' :: hook_state
    using assms(1,2) that by (auto simp: is_mounted_def should_stream_def)
  have stopped: "phase_of s' = Stopped"
    if "(\<forall>ph cid. \<not> live_connection s ph cid) \<and> (\<forall>t. \<not> live_timer s t)"
      and "effects s' = effects s" "connections s' = connections s" "timers s' = timers s"
      "aborted s' = aborted s" "externalAborted s' = externalAborted s"
    for s' :: hook_state
  proof -
    have "\<not> live_connection s' ph cid" for ph cid
      using that(1) unfolding live_connection_def is_mounted_def should_stream_def
        combinedSignal_aborted_def options_of_def that(2-6) by blast
    moreover have "\<not> live_timer s' t" for t
      using that(1) unfolding live_timer_def is_mounted_def should_stream_def that(2-6) by blast
    ultimately show ?thesis using live [OF that(2)] by (simp add: phase_of_def)
  qed
  show ?thesis
    unfolding Let_def h
    by (auto simp: scheduleReconnect_def Let_def intro!: stopped)
qed

text \<open>
  The first stream of a hook throws at attempt 0. With a predicate that returns false and
  \<open>maxRetries = 5\<close> the hook stops and \<open>onMaxRetriesReached\<close> is not called; with the
  same predicate and \<open>maxRetries = 0\<close> it is called; without a predicate and with
  \<open>maxRetries = 5\<close> a reconnect is scheduled.
\<close>

theorem retry_decision_witness:
  "is_mounted (at_first_stream_error (refusing_options 5)) 0
   \<and> should_stream (at_first_stream_error (refusing_options 5)) 0
   \<and> \<not> combinedSignal_aborted (at_first_stream_error (refusing_options 5)) 0 0
   \<and> step (StreamThrew 0 ''forbidden'') (step (Render (refusing_options 5)) (initial True (\<lambda>k. Finite (1 / 2))))
       = handle_error 0 0 ''forbidden'' (at_first_stream_error (refusing_options 5))
   \<and> calls (handle_error 0 0 ''forbidden'' (at_first_stream_error (refusing_options 5)))
       = [OnConnect, OnDisconnect, OnError ''forbidden'' 0]
   \<and> timers (handle_error 0 0 ''forbidden'' (at_first_stream_error (refusing_options 5))) = Map.empty
   \<and> phase_of (handle_error 0 0 ''forbidden'' (at_first_stream_error (refusing_options 5))) = Stopped
   \<and> calls (handle_error 0 0 ''forbidden'' (at_first_stream_error (refusing_options 0)))
       = [OnConnect, OnDisconnect, OnError ''forbidden'' 0, OnMaxRetriesReached ''forbidden'']
   \<and> phase_of (handle_error 0 0 ''forbidden'' (at_first_stream_error (refusing_options 0))) = Stopped
   \<and> calls (handle_error 0 0 ''forbidden''
        (at_first_stream_error ((refusing_options 5)\<lparr>shouldRetry := None\<rparr>)))
       = [OnConnect, OnDisconnect, OnError ''forbidden'' 0]
   \<and> currentAttemptRef (handle_error 0 0 ''forbidden''
        (at_first_stream_error ((refusing_options 5)\<lparr>shouldRetry := None\<rparr>))) = 1"
proof -
  let ?A = "at_first_stream_error (refusing_options 5)"
  let ?B = "at_first_stream_error (refusing_options 0)"
  let ?C = "at_first_stream_error ((refusing_options 5)\<lparr>shouldRetry := None\<rparr>)"
  have pre: "is_mounted (at_first_stream_error (refusing_options r)) 0"
    "should_stream (at_first_stream_error (refusing_options r)) 0"
    "\<not> combinedSignal_aborted (at_first_stream_error (refusing_options r)) 0 0"
    "is_mounted ?C 0" "should_stream ?C 0" "\<not> combinedSignal_aborted ?C 0 0" for r
    by (simp_all add: at_first_stream_error_def hook_eval initial_def refusing_options_def)
  have st: "calls (at_first_stream_error (refusing_options r)) = [OnConnect]"
    "timers (at_first_stream_error (refusing_options r)) = Map.empty"
    "currentAttemptRef (at_first_stream_error (refusing_options r)) = 0"
    "shouldRetry (options_of (at_first_stream_error (refusing_options r)) 0)
       = Some (\<lambda>err attempt. False)"
    "maxRetries (options_of (at_first_stream_error (refusing_options r)) 0) = r"
    "\<forall>ph cid. \<not> live_connection (at_first_stream_error (refusing_options r)) ph cid"
    "\<forall>t. \<not> live_timer (at_first_stream_error (refusing_options r)) t"
    "calls ?C = [OnConnect]" "currentAttemptRef ?C = 0"
    "shouldRetry (options_of ?C 0) = None" "maxRetries (options_of ?C 0) = 5"
    for r
    by (simp_all add: at_first_stream_error_def hook_eval initial_def refusing_options_def
          live_connection_def live_timer_def)
  have path: "step (StreamThrew 0 ''forbidden'')
        (step (Render (refusing_options 5)) (initial True (\<lambda>k. Finite (1 / 2))))
       = handle_error 0 0 ''forbidden'' ?A"
    by (simp add: at_first_stream_error_def hook_eval initial_def refusing_options_def)
  note a = retry_decision [where err = "''forbidden''", OF pre(1) [of 5] pre(2) [of 5] pre(3) [of 5],
      unfolded Let_def st]
  note b = retry_decision [where err = "''forbidden''", OF pre(1) [of 0] pre(2) [of 0] pre(3) [of 0],
      unfolded Let_def st]
  note c = retry_decision [where err = "''forbidden''", OF pre(4,5,6), unfolded Let_def st]
  have five: "enat 0 < 5" "\<not> enat 0 < 0" by (simp_all add: zero_enat_def [symmetric])
  show ?thesis
    using pre(1,2,3) [of 5] path a b c five st(6,7) by simp
qed

subsection \<open>What holds in every reachable state\<close>

lemma hook_frame_refl: "hook_frame s s"
  by (simp add: hook_frame_def)

lemma hook_frame_trans: "hook_frame s s' \<Longrightarrow> hook_frame s' s'' \<Longrightarrow> hook_frame s s''"
  unfolding hook_frame_def should_stream_def
  by (intro conjI; (simp; fail)?; (metis (no_types, lifting) le_trans less_le_trans)?)

lemma hook_inv_frame: "hook_inv s \<Longrightarrow> hook_frame s s' \<Longrightarrow> hook_inv s'"
  unfolding hook_inv_def hook_frame_def should_stream_def
  by (intro conjI; (simp split: option.splits; fail)?; (metis (no_types, lifting) less_le_trans)?)


lemma hook_frame_scheduleReconnect:
  "should_stream s eff \<Longrightarrow> hook_frame s (scheduleReconnect eff s)"
  by (simp add: hook_frame_def scheduleReconnect_def Let_def)

lemma hook_frame_handle_error: "hook_frame s (handle_error eff ctrl err s)"
proof -
  let ?s1 = "s\<lparr>error := Some err, isConnected := False,
               calls := calls s @ [OnDisconnect, OnError err (currentAttemptRef s)]\<rparr>"
  have 1: "hook_frame s ?s1" by (simp add: hook_frame_def)
  have 2: "hook_frame s (?s1\<lparr>calls := calls ?s1 @ [OnMaxRetriesReached err]\<rparr>)"
    by (simp add: hook_frame_def)
  have 3: "hook_frame s (scheduleReconnect eff ?s1)" if "should_stream ?s1 eff"
    using hook_frame_trans [OF 1 hook_frame_scheduleReconnect [OF that]] .
  show ?thesis
    unfolding handle_error_def Let_def
    using 1 2 3 hook_frame_refl [of s] by (simp split: option.splits)
qed

lemma hook_frame_stream_opened:
  "should_stream s eff \<Longrightarrow> hook_frame s (stream_opened cid eff ctrl s)"
  by (simp add: hook_frame_def stream_opened_def)

lemma hook_frame_after_loop: "hook_frame s (after_loop eff ctrl s)"
proof -
  let ?s1 = "s\<lparr>isConnected := False, calls := calls s @ [OnDisconnect]\<rparr>"
  have 1: "hook_frame s ?s1" by (simp add: hook_frame_def)
  have "hook_frame s (scheduleReconnect eff ?s1)" if "should_stream s eff"
  proof -
    have "should_stream ?s1 eff" using that by (simp add: should_stream_def)
    from hook_frame_trans [OF 1 hook_frame_scheduleReconnect [OF this]] show ?thesis .
  qed
  then show ?thesis
    unfolding after_loop_def using hook_frame_refl [of s] by simp
qed

lemma hook_frame_connectToStream: "hook_frame s (connectToStream eff s)"
proof (cases "should_stream s eff")
  case False
  then show ?thesis by (simp add: connectToStream_def hook_frame_refl)
next
  case True
  let ?s3 = "s\<lparr>abortControllerRef := Some (controllersMade s),
               controllersMade := controllersMade s + 1,
               isConnected := False, error := None, streamCalls := streamCalls s + 1\<rparr>"
  have 1: "hook_frame s ?s3" by (simp add: hook_frame_def)
  have ss: "should_stream ?s3 eff" using True by (simp add: should_stream_def)
  have a: "hook_frame s (handle_error eff c err ?s3)" for c err
    by (rule hook_frame_trans [OF 1 hook_frame_handle_error])
  have b: "hook_frame s (stream_opened cid eff c ?s3)" for cid c
    by (rule hook_frame_trans [OF 1 hook_frame_stream_opened [OF ss]])
  have c: "hook_frame s (?s3\<lparr>connections := (connections ?s3)
      (cid \<mapsto> \<lparr>owner = eff, controller = c, cphase = AwaitingStream\<rparr>)\<rparr>)" for cid c
    using True by (simp add: hook_frame_def)
  show ?thesis
    unfolding connectToStream_def Let_def using True a b c
    by (simp split: fn_outcome.splits)
qed

lemma hook_frame_drop_connection:
  "hook_frame s (s\<lparr>connections := (connections s)(cid := None)\<rparr>)"
  by (simp add: hook_frame_def)

lemma hook_frame_drop_timer: "hook_frame s (s\<lparr>timers := (timers s)(t := None)\<rparr>)"
  by (simp add: hook_frame_def)

lemma hook_frame_environment:
  assumes "hook_inv s" and "environment_event ev"
  shows "hook_frame s (step ev s)"
proof (cases ev)
  case (TimerFired t)
  have "hook_frame s (connectToStream eff (s\<lparr>timers := (timers s)(t := None)\<rparr>))" for eff
    by (rule hook_frame_trans [OF hook_frame_drop_timer hook_frame_connectToStream])
  then show ?thesis
    using TimerFired hook_frame_drop_timer [of s t] hook_frame_refl [of s]
    by (simp add: timer_fired_def Let_def split: option.splits prod.splits)
next
  case (PromiseResolved cid)
  have "hook_frame s (stream_opened cid (owner c) (controller c) s)"
    if "connections s cid = Some c" for c
    using assms(1) that by (intro hook_frame_stream_opened) (auto simp: hook_inv_def)
  then show ?thesis
    using PromiseResolved hook_frame_refl [of s]
    by (simp add: promise_resolved_def split: option.splits)
next
  case (PromiseRejected cid err)
  have "hook_frame s (handle_error eff c err (s\<lparr>connections := (connections s)(cid := None)\<rparr>))"
    for eff c
    by (rule hook_frame_trans [OF hook_frame_drop_connection hook_frame_handle_error])
  then show ?thesis
    using PromiseRejected hook_frame_refl [of s]
    by (simp add: promise_rejected_def split: option.splits)
next
  case (StreamItem cid event)
  have "hook_frame s (after_loop eff c (s\<lparr>connections := (connections s)(cid := None)\<rparr>))"
    for eff c
    by (rule hook_frame_trans [OF hook_frame_drop_connection hook_frame_after_loop])
  moreover have "hook_frame s (s\<lparr>calls := calls s @ [OnData event (currentAttemptRef s)]\<rparr>)"
    by (simp add: hook_frame_def)
  ultimately show ?thesis
    using StreamItem hook_frame_refl [of s]
    by (simp add: stream_item_def split: option.splits)
next
  case (StreamEnded cid)
  have "hook_frame s (after_loop eff c (s\<lparr>connections := (connections s)(cid := None)\<rparr>))"
    for eff c
    by (rule hook_frame_trans [OF hook_frame_drop_connection hook_frame_after_loop])
  then show ?thesis
    using StreamEnded hook_frame_refl [of s]
    by (simp add: stream_ended_def split: option.splits)
next
  case (StreamThrew cid err)
  have "hook_frame s (handle_error eff c err (s\<lparr>connections := (connections s)(cid := None)\<rparr>))"
    for eff c
    by (rule hook_frame_trans [OF hook_frame_drop_connection hook_frame_handle_error])
  then show ?thesis
    using StreamThrew hook_frame_refl [of s]
    by (simp add: stream_threw_def split: option.splits)
next
  case (ExternalAbort x)
  then show ?thesis by (simp add: external_abort_def hook_frame_def)
qed (use assms(2) in simp_all)

lemma hook_inv_initial: "hook_inv (initial v rnd)"
  by (simp add: hook_inv_def initial_def)

lemma hook_invD:
  assumes "hook_inv s"
  shows "rendered s = None \<Longrightarrow> lastDeps s = None \<and> effects s = []"
    and "rendered s = Some p \<Longrightarrow> lastDeps s = Some (deps_of p (isVisible s)) \<and> effects s \<noteq> []"
    and "Suc i < length (effects s) \<Longrightarrow> \<not> isMounted (effects s ! i)"
    and "aborted s c \<Longrightarrow> c < controllersMade s"
    and "abortControllerRef s = Some c \<Longrightarrow> c < controllersMade s"
    and "connections s cid = Some cn \<Longrightarrow> should_stream s (owner cn)"
    and "timers s t = Some (eff, d) \<Longrightarrow> should_stream s eff"
proof -
  show "rendered s = None \<Longrightarrow> lastDeps s = None \<and> effects s = []"
    and "rendered s = Some p \<Longrightarrow> lastDeps s = Some (deps_of p (isVisible s)) \<and> effects s \<noteq> []"
    using assms by (simp_all add: hook_inv_def)
  show "Suc i < length (effects s) \<Longrightarrow> \<not> isMounted (effects s ! i)"
    and "aborted s c \<Longrightarrow> c < controllersMade s"
    and "abortControllerRef s = Some c \<Longrightarrow> c < controllersMade s"
    and "connections s cid = Some cn \<Longrightarrow> should_stream s (owner cn)"
    and "timers s t = Some (eff, d) \<Longrightarrow> should_stream s eff"
    using assms unfolding hook_inv_def by blast+
qed

lemma hook_inv_abort_current: "hook_inv s \<Longrightarrow> hook_inv (abort_current s)"
  unfolding hook_inv_def abort_current_def should_stream_def
  by (auto split: option.splits)

lemma hook_inv_clear_reconnect_timeout: "hook_inv s \<Longrightarrow> hook_inv (clear_reconnect_timeout s)"
  unfolding hook_inv_def clear_reconnect_timeout_def should_stream_def
  by (auto split: option.splits if_splits)

text \<open>The state in which the effect body starts: every earlier effect run is unmounted.\<close>

lemma before_effect_body:
  fixes s0 v p
  assumes inv: "hook_inv s0"
  defines "s1 \<equiv> s0\<lparr>isVisible := v, rendered := Some p\<rparr>"
  defines "s2 \<equiv> (if effects s1 = [] then s1 else effect_cleanup (length (effects s1) - 1) s1)"
  shows "\<forall>i < length (effects s2). \<not> isMounted (effects s2 ! i)"
    and "length (effects s2) = length (effects s0)"
    and "\<forall>i < length (effects s2). shouldStream (effects s2 ! i) = shouldStream (effects s0 ! i)"
    and "\<forall>i < length (effects s2). options (effects s2 ! i) = options (effects s0 ! i)"
    and "\<forall>c. aborted s2 c \<longrightarrow> c < controllersMade s2"
    and "\<forall>c. aborted s0 c \<longrightarrow> aborted s2 c"
    and "\<forall>c. abortControllerRef s0 = Some c \<longrightarrow> effects s0 \<noteq> [] \<longrightarrow> aborted s2 c"
    and "\<forall>t. reconnectTimeoutRef s0 = Some t \<longrightarrow> effects s0 \<noteq> [] \<longrightarrow> timers s2 t = None"
    and "controllersMade s2 = controllersMade s0"
    and "abortControllerRef s2 = abortControllerRef s0"
    and "\<forall>cid c. connections s2 cid = Some c \<longrightarrow> connections s0 cid = Some c"
    and "\<forall>t x. timers s2 t = Some x \<longrightarrow> timers s0 t = Some x"
    and "rendered s2 = Some p" and "isVisible s2 = v"
    and "calls s2 = calls s0" and "currentAttemptRef s2 = currentAttemptRef s0"
    and "reconnectAttempt s2 = reconnectAttempt s0" and "streamCalls s2 = streamCalls s0"
    and "externalAborted s2 = externalAborted s0" and "timersMade s2 = timersMade s0"
proof -
  note d = hook_invD [OF inv]
  show "\<forall>i < length (effects s2). \<not> isMounted (effects s2 ! i)"
  proof (intro allI impI)
    fix i assume "i < length (effects s2)"
    then have i: "i < length (effects s0)" "effects s0 \<noteq> []"
      by (auto simp: s2_def s1_def effect_cleanup_def abort_current_def
            clear_reconnect_timeout_def split: option.splits if_splits)
    show "\<not> isMounted (effects s2 ! i)"
    proof (cases "Suc i < length (effects s0)")
      case True
      then show ?thesis
        using d(3) [of i] i
        by (auto simp: s2_def s1_def effect_cleanup_def abort_current_def
              clear_reconnect_timeout_def nth_list_update split: option.splits)
    next
      case False
      then have "i = length (effects s0) - 1" using i by simp
      then show ?thesis
        using i
        by (auto simp: s2_def s1_def effect_cleanup_def abort_current_def
              clear_reconnect_timeout_def nth_list_update split: option.splits)
    qed
  qed
  show "length (effects s2) = length (effects s0)"
    by (auto simp: s2_def s1_def effect_cleanup_def abort_current_def
          clear_reconnect_timeout_def split: option.splits)
  show "\<forall>i < length (effects s2). shouldStream (effects s2 ! i) = shouldStream (effects s0 ! i)"
    by (auto simp: s2_def s1_def effect_cleanup_def abort_current_def
          clear_reconnect_timeout_def nth_list_update split: option.splits)
  show "\<forall>i < length (effects s2). options (effects s2 ! i) = options (effects s0 ! i)"
    by (auto simp: s2_def s1_def effect_cleanup_def abort_current_def
          clear_reconnect_timeout_def nth_list_update split: option.splits)
  show "\<forall>c. aborted s2 c \<longrightarrow> c < controllersMade s2"
    using d(4) d(5)
    by (auto simp: s2_def s1_def effect_cleanup_def abort_current_def
          clear_reconnect_timeout_def split: option.splits if_splits)
  show "\<forall>c. aborted s0 c \<longrightarrow> aborted s2 c"
    by (auto simp: s2_def s1_def effect_cleanup_def abort_current_def
          clear_reconnect_timeout_def split: option.splits)
  show "\<forall>c. abortControllerRef s0 = Some c \<longrightarrow> effects s0 \<noteq> [] \<longrightarrow> aborted s2 c"
    by (auto simp: s2_def s1_def effect_cleanup_def abort_current_def
          clear_reconnect_timeout_def split: option.splits)
  show "\<forall>t. reconnectTimeoutRef s0 = Some t \<longrightarrow> effects s0 \<noteq> [] \<longrightarrow> timers s2 t = None"
    by (auto simp: s2_def s1_def effect_cleanup_def abort_current_def
          clear_reconnect_timeout_def split: option.splits)
  show "controllersMade s2 = controllersMade s0" "abortControllerRef s2 = abortControllerRef s0"
    "rendered s2 = Some p" "isVisible s2 = v" "calls s2 = calls s0"
    "currentAttemptRef s2 = currentAttemptRef s0" "reconnectAttempt s2 = reconnectAttempt s0"
    "streamCalls s2 = streamCalls s0" "externalAborted s2 = externalAborted s0"
    "timersMade s2 = timersMade s0"
    by (auto simp: s2_def s1_def effect_cleanup_def abort_current_def
          clear_reconnect_timeout_def split: option.splits)
  show "\<forall>cid c. connections s2 cid = Some c \<longrightarrow> connections s0 cid = Some c"
    by (auto simp: s2_def s1_def effect_cleanup_def abort_current_def
          clear_reconnect_timeout_def split: option.splits)
  show "\<forall>t x. timers s2 t = Some x \<longrightarrow> timers s0 t = Some x"
    by (auto simp: s2_def s1_def effect_cleanup_def abort_current_def
          clear_reconnect_timeout_def split: option.splits if_splits)
qed

lemma render_unfold:
  "render p (s0\<lparr>isVisible := v\<rparr>) =
     (let s1 = s0\<lparr>isVisible := v, rendered := Some p\<rparr>;
          s2 = (if effects s1 = [] then s1 else effect_cleanup (length (effects s1) - 1) s1);
          s4 = s2\<lparr>lastDeps := Some (deps_of p v),
                  effects := effects s2
                    @ [\<lparr>isMounted = True, options = p, shouldStream = shouldStream_of p v\<rparr>]\<rparr>
      in if lastDeps s0 = Some (deps_of p v) then s1
         else if shouldStream_of p v then connectToStream (length (effects s2)) s4
         else abort_current (s4\<lparr>isConnected := False, isReconnecting := False\<rparr>))"
  by (simp add: render_def effect_body_def Let_def)

lemma hook_inv_at_effect_body:
  fixes s0 v p
  assumes inv: "hook_inv s0"
  defines "s1 \<equiv> s0\<lparr>isVisible := v, rendered := Some p\<rparr>"
  defines "s2 \<equiv> (if effects s1 = [] then s1 else effect_cleanup (length (effects s1) - 1) s1)"
  defines "s4 \<equiv> s2\<lparr>lastDeps := Some (deps_of p v),
                  effects := effects s2
                    @ [\<lparr>isMounted = True, options = p, shouldStream = shouldStream_of p v\<rparr>]\<rparr>"
  shows "hook_inv s4"
proof -
  note b = before_effect_body [OF inv, where v = v and p = p, folded s1_def, folded s2_def]
  note d = hook_invD [OF inv]
  have eff4: "effects s4 = effects s2
      @ [\<lparr>isMounted = True, options = p, shouldStream = shouldStream_of p v\<rparr>]"
    by (simp add: s4_def)
  have ss: "should_stream s4 e" if "should_stream s0 e" for e
    using that b(2) b(3) by (auto simp: should_stream_def eff4 nth_append)
  have "rendered s4 = Some p" "lastDeps s4 = Some (deps_of p (isVisible s4))" "effects s4 \<noteq> []"
    using b(13,14) by (simp_all add: s4_def)
  moreover have "\<not> isMounted (effects s4 ! i)" if "Suc i < length (effects s4)" for i
    using that b(1) by (simp add: eff4 nth_append)
  moreover have "c < controllersMade s4" if "aborted s4 c" for c
    using that b(5) by (simp add: s4_def)
  moreover have "c < controllersMade s4" if "abortControllerRef s4 = Some c" for c
    using that b(9,10) d(5) by (simp add: s4_def)
  moreover have "should_stream s4 (owner c)" if "connections s4 cid = Some c" for cid c
  proof -
    have "connections s0 cid = Some c" using that b(11) by (simp add: s4_def)
    then show ?thesis by (intro ss d(6))
  qed
  moreover have "should_stream s4 e" if "timers s4 t = Some (e, dl)" for t e dl
  proof -
    have "timers s0 t = Some (e, dl)" using that b(12) by (simp add: s4_def)
    then show ?thesis by (intro ss d(7))
  qed
  ultimately show ?thesis unfolding hook_inv_def by auto
qed

lemma hook_inv_render_visible:
  assumes inv: "hook_inv s0"
  shows "hook_inv (render p (s0\<lparr>isVisible := v\<rparr>))"
proof -
  let ?s1 = "s0\<lparr>isVisible := v, rendered := Some p\<rparr>"
  let ?s2 = "if effects ?s1 = [] then ?s1 else effect_cleanup (length (effects ?s1) - 1) ?s1"
  let ?s4 = "?s2\<lparr>lastDeps := Some (deps_of p v),
                  effects := effects ?s2
                    @ [\<lparr>isMounted = True, options = p, shouldStream = shouldStream_of p v\<rparr>]\<rparr>"
  have 4: "hook_inv ?s4" by (rule hook_inv_at_effect_body [OF inv])
  have same: "hook_inv ?s1" if "lastDeps s0 = Some (deps_of p v)"
  proof -
    have "rendered s0 \<noteq> None" using that hook_invD(1) [OF inv] by auto
    then obtain p0 where "rendered s0 = Some p0" by auto
    then have "effects s0 \<noteq> []" using hook_invD(2) [OF inv] by auto
    then show ?thesis
      using inv that unfolding hook_inv_def should_stream_def by simp
  qed
  have a: "hook_inv (connectToStream e ?s4)" for e
    by (rule hook_inv_frame [OF 4 hook_frame_connectToStream])
  have "hook_frame ?s4 (?s4\<lparr>isConnected := False, isReconnecting := False\<rparr>)"
    by (simp add: hook_frame_def should_stream_def)
  then have "hook_inv (?s4\<lparr>isConnected := False, isReconnecting := False\<rparr>)"
    by (rule hook_inv_frame [OF 4])
  then have b: "hook_inv (abort_current (?s4\<lparr>isConnected := False, isReconnecting := False\<rparr>))"
    by (rule hook_inv_abort_current)
  show ?thesis
    unfolding render_unfold Let_def using same a b by presburger
qed

lemma hook_inv_render: "hook_inv s \<Longrightarrow> hook_inv (render p s)"
  using hook_inv_render_visible [of s p "isVisible s"] by simp

lemma hook_inv_rerender: "hook_inv s \<Longrightarrow> hook_inv (rerender s)"
  by (simp add: rerender_def hook_inv_render split: option.splits)

lemma hook_inv_reconnect: "hook_inv s \<Longrightarrow> hook_inv (reconnect s)"
proof -
  assume "hook_inv s"
  then have "hook_inv (clear_reconnect_timeout (abort_current s))"
    by (intro hook_inv_clear_reconnect_timeout hook_inv_abort_current)
  moreover have "hook_frame s' (s'\<lparr>currentAttemptRef := 0, reconnectAttempt := 0, error := None\<rparr>)"
    for s' :: hook_state
    by (simp add: hook_frame_def should_stream_def)
  ultimately show ?thesis
    unfolding reconnect_def Let_def by (rule hook_inv_frame)
qed

lemma hook_inv_step: "hook_inv s \<Longrightarrow> hook_inv (step ev s)"
proof (cases "environment_event ev")
  case True
  assume inv: "hook_inv s"
  show ?thesis by (rule hook_inv_frame [OF inv hook_frame_environment [OF inv True]])
next
  case False
  assume inv: "hook_inv s"
  show ?thesis
  proof (cases ev)
    case (Render p)
    then show ?thesis using inv by (simp add: hook_inv_render)
  next
    case (VisibilityChange hidden)
    have "hook_inv (s\<lparr>isVisible := \<not> hidden\<rparr>)" if "rendered s = None"
      using inv that unfolding hook_inv_def should_stream_def by auto
    then show ?thesis
      using VisibilityChange inv hook_inv_render_visible [OF inv, of _ "\<not> hidden"]
      by (simp add: handleVisibilityChange_def rerender_def split: option.splits)
  next
    case Reconnect
    then show ?thesis using inv by (simp add: hook_inv_rerender hook_inv_reconnect)
  qed (use False in simp_all)
qed

lemma hook_inv_run_events: "hook_inv s \<Longrightarrow> hook_inv (run_events es s)"
  by (induction es arbitrary: s) (simp_all add: hook_inv_step)

lemma hook_inv_reachable: "hook_inv (run_events es (initial v rnd))"
  by (rule hook_inv_run_events [OF hook_inv_initial])

subsection \<open>Pausing while hidden\<close>



















subsection \<open>The manual \<^verbatim>\<open>reconnect()\<close>\<close>

lemma reconnect_fields:
  "streamCalls (reconnect s) = streamCalls s"
  "connections (reconnect s) = connections s"
  "effects (reconnect s) = effects s"
  "controllersMade (reconnect s) = controllersMade s"
  "timersMade (reconnect s) = timersMade s"
  "isConnected (reconnect s) = isConnected s"
  "isReconnecting (reconnect s) = isReconnecting s"
  "calls (reconnect s) = calls s"
  "rendered (reconnect s) = rendered s"
  "lastDeps (reconnect s) = lastDeps s"
  "isVisible (reconnect s) = isVisible s"
  "externalAborted (reconnect s) = externalAborted s"
  "currentAttemptRef (reconnect s) = 0"
  "reconnectAttempt (reconnect s) = 0"
  "error (reconnect s) = None"
  by (simp_all add: reconnect_def abort_current_def clear_reconnect_timeout_def Let_def
        split: option.splits)

lemma reconnect_aborts:
  "abortControllerRef s = Some c \<Longrightarrow> aborted (reconnect s) c"
  "aborted s c \<Longrightarrow> aborted (reconnect s) c"
  "reconnectTimeoutRef s = Some t \<Longrightarrow> timers (reconnect s) t = None"
  by (simp_all add: reconnect_def abort_current_def clear_reconnect_timeout_def Let_def
        split: option.splits)

lemma rerender_same_deps:
  assumes "hook_inv s"
  shows "rerender s = s"
proof (cases "rendered s")
  case None
  then show ?thesis by (simp add: rerender_def)
next
  case (Some p)
  then have "lastDeps s = Some (deps_of p (isVisible s))"
    using assms by (simp add: hook_inv_def)
  then show ?thesis using Some by (simp add: rerender_def render_def Let_def)
qed

lemma live_connection_reconnect:
  assumes "live_connection (reconnect s) ph cid"
  shows "live_connection s ph cid"
    and "\<exists>c. connections s cid = Some c \<and> abortControllerRef s \<noteq> Some (controller c)"
proof -
  obtain c where c: "connections s cid = Some c"
    using assms by (cases "connections s cid") (simp_all add: live_connection_def reconnect_fields)
  have l: "cphase c = ph" "is_mounted (reconnect s) (owner c)"
    "should_stream (reconnect s) (owner c)"
    "\<not> combinedSignal_aborted (reconnect s) (owner c) (controller c)"
    using assms c by (simp_all add: live_connection_def reconnect_fields)
  have m: "is_mounted s (owner c)" "should_stream s (owner c)"
    using l(2,3) by (simp_all add: is_mounted_def should_stream_def reconnect_fields)
  have n: "\<not> aborted (reconnect s) (controller c)"
    "\<not> combinedSignal_aborted s (owner c) (controller c)"
    using l(4) reconnect_aborts(2) [of s "controller c"]
    by (auto simp add: combinedSignal_aborted_def options_of_def reconnect_fields
          split: option.splits)
  show "live_connection s ph cid"
    using c l(1) m n(2) by (simp add: live_connection_def)
  show "\<exists>c. connections s cid = Some c \<and> abortControllerRef s \<noteq> Some (controller c)"
    using c n(1) reconnect_aborts(1) [of s "controller c"] by blast
qed

text \<open>
  Claim C1. In every state the hook can reach, calling \<^verbatim>\<open>reconnect()\<close> aborts the
  controller of the current connection, clears the pending timer and resets the attempt
  counter, the reported attempt and the error; but the stream factory is not invoked and no
  connection is added: the dependency list of the effect is unchanged, so the re-render that
  follows does not run the effect again. The connection made with the current controller is
  no longer live, so the hook is not connecting on its behalf; \<^verbatim>\<open>isConnected\<close> and
  \<^verbatim>\<open>isReconnecting\<close> keep their values and no callback is called.
\<close>

theorem reconnect_does_not_restart:
  assumes reach: "s = run_events es (initial v rnd)"
  shows "let s1 = step Reconnect s
         in (\<forall>c. abortControllerRef s = Some c \<longrightarrow> aborted s1 c)
          \<and> (\<forall>t. reconnectTimeoutRef s = Some t \<longrightarrow> timers s1 t = None)
          \<and> currentAttemptRef s1 = 0 \<and> reconnectAttempt s1 = 0 \<and> error s1 = None
          \<and> streamCalls s1 = streamCalls s
          \<and> connections s1 = connections s
          \<and> effects s1 = effects s
          \<and> lastDeps s1 = lastDeps s
          \<and> isConnected s1 = isConnected s
          \<and> isReconnecting s1 = isReconnecting s
          \<and> calls s1 = calls s
          \<and> (\<forall>ph cid c. connections s cid = Some c \<and> abortControllerRef s = Some (controller c)
                \<longrightarrow> \<not> live_connection s1 ph cid)
          \<and> (\<forall>ph cid. live_connection s1 ph cid \<longrightarrow> live_connection s ph cid)
          \<and> (\<forall>t. live_timer s1 t \<longrightarrow> live_timer s t \<and> reconnectTimeoutRef s \<noteq> Some t)"
proof -
  have inv: "hook_inv (reconnect s)"
    unfolding reach by (intro hook_inv_reconnect hook_inv_reachable)
  have eq: "step Reconnect s = reconnect s"
    using rerender_same_deps [OF inv] by simp
  have a: "\<forall>c. abortControllerRef s = Some c \<longrightarrow> aborted (reconnect s) c"
    and b: "\<forall>t. reconnectTimeoutRef s = Some t \<longrightarrow> timers (reconnect s) t = None"
    using reconnect_aborts by blast+
  have c: "\<forall>ph cid c. connections s cid = Some c \<and> abortControllerRef s = Some (controller c)
                \<longrightarrow> \<not> live_connection (reconnect s) ph cid"
    using live_connection_reconnect(2) by fastforce
  have d: "\<forall>ph cid. live_connection (reconnect s) ph cid \<longrightarrow> live_connection s ph cid"
    using live_connection_reconnect(1) by blast
  have e: "live_timer s t \<and> reconnectTimeoutRef s \<noteq> Some t" if "live_timer (reconnect s) t" for t
  proof -
    have "timers (reconnect s) t \<noteq> None"
      using that by (cases "timers (reconnect s) t") (simp_all add: live_timer_def)
    then obtain eff dl where t: "timers (reconnect s) t = Some (eff, dl)"
      by (cases "timers (reconnect s) t") auto
    have ne: "reconnectTimeoutRef s \<noteq> Some t"
      using t reconnect_aborts(3) [of s t] by auto
    have "timers s t = Some (eff, dl)"
      using t ne
      by (auto simp add: reconnect_def abort_current_def clear_reconnect_timeout_def Let_def
            split: option.splits if_splits)
    then have "live_timer s t"
      using that t
      by (simp add: live_timer_def is_mounted_def should_stream_def reconnect_fields)
    then show ?thesis using ne by simp
  qed
  then have e': "\<forall>t. live_timer (reconnect s) t \<longrightarrow> live_timer s t \<and> reconnectTimeoutRef s \<noteq> Some t"
    by blast
  show ?thesis
    unfolding eq
    by (subst Let_def)
       (intro conjI a b c d e' reconnect_fields(13) reconnect_fields(14) reconnect_fields(15)
          reconnect_fields(1) reconnect_fields(2) reconnect_fields(3) reconnect_fields(10)
          reconnect_fields(6) reconnect_fields(7) reconnect_fields(8))
qed

text \<open>
  Claim C1 at a concrete input: the hook is mounted, enabled and visible, the promise of the
  factory has been fulfilled and the hook is connected, at attempt 0 and without an error.
  After \<^verbatim>\<open>reconnect()\<close> the controller is aborted and the factory has still been invoked
  once; the hook is neither connecting nor waiting for a timer, while \<^verbatim>\<open>isConnected\<close>
  is still true. The next item of the aborted stream ends the loop without a callback, and
  the hook stays stopped.
\<close>

theorem reconnect_does_not_restart_witness:
  "phase_of (run_events [Render steady_options, PromiseResolved 0] (initial True (\<lambda>k. Finite (1 / 2))))
     = Connected
   \<and> streamCalls (run_events [Render steady_options, PromiseResolved 0]
        (initial True (\<lambda>k. Finite (1 / 2)))) = 1
   \<and> abortControllerRef (run_events [Render steady_options, PromiseResolved 0]
        (initial True (\<lambda>k. Finite (1 / 2)))) = Some 0
   \<and> aborted (step Reconnect (run_events [Render steady_options, PromiseResolved 0]
        (initial True (\<lambda>k. Finite (1 / 2))))) 0
   \<and> currentAttemptRef (step Reconnect (run_events [Render steady_options, PromiseResolved 0]
        (initial True (\<lambda>k. Finite (1 / 2))))) = 0
   \<and> streamCalls (step Reconnect (run_events [Render steady_options, PromiseResolved 0]
        (initial True (\<lambda>k. Finite (1 / 2))))) = 1
   \<and> isConnected (step Reconnect (run_events [Render steady_options, PromiseResolved 0]
        (initial True (\<lambda>k. Finite (1 / 2)))))
   \<and> phase_of (step Reconnect (run_events [Render steady_options, PromiseResolved 0]
        (initial True (\<lambda>k. Finite (1 / 2))))) = Stopped
   \<and> streamCalls (step (StreamItem 0 (JStr ''late''))
        (step Reconnect (run_events [Render steady_options, PromiseResolved 0]
          (initial True (\<lambda>k. Finite (1 / 2)))))) = 1
   \<and> calls (step (StreamItem 0 (JStr ''late''))
        (step Reconnect (run_events [Render steady_options, PromiseResolved 0]
          (initial True (\<lambda>k. Finite (1 / 2)))))) = [OnConnect]
   \<and> phase_of (step (StreamItem 0 (JStr ''late''))
        (step Reconnect (run_events [Render steady_options, PromiseResolved 0]
          (initial True (\<lambda>k. Finite (1 / 2)))))) = Stopped"
proof -
  let ?S = "run_events [Render steady_options, PromiseResolved 0] (initial True (\<lambda>k. Finite (1 / 2)))"
  note inst = reconnect_does_not_restart [of ?S "[Render steady_options, PromiseResolved 0]"
      True "\<lambda>k. Finite (1 / 2)", OF refl, unfolded Let_def]
  have st: "streamCalls ?S = 1" "abortControllerRef ?S = Some 0" "isConnected ?S"
    by (simp_all add: hook_eval initial_def steady_options_def)
  have p0: "phase_of ?S = Connected"
    by (simp add: hook_eval initial_def steady_options_def phase_of_def live_connection_def
          live_timer_def)
  have a: "aborted (step Reconnect ?S) 0" using inst st(2) by blast
  have c: "currentAttemptRef (step Reconnect ?S) = 0" using inst by blast
  have n: "streamCalls (step Reconnect ?S) = 1" using inst st(1) by simp
  have i: "isConnected (step Reconnect ?S)" using inst st(3) by simp
  have p1: "phase_of (step Reconnect ?S) = Stopped"
    by (simp add: hook_eval initial_def steady_options_def phase_of_def live_connection_def
          live_timer_def)
  have l: "streamCalls (step (StreamItem 0 (JStr ''late'')) (step Reconnect ?S)) = 1"
    "calls (step (StreamItem 0 (JStr ''late'')) (step Reconnect ?S)) = [OnConnect]"
    by (simp_all add: hook_eval initial_def steady_options_def)
  have p2: "phase_of (step (StreamItem 0 (JStr ''late'')) (step Reconnect ?S)) = Stopped"
    by (simp add: hook_eval initial_def steady_options_def phase_of_def live_connection_def
          live_timer_def)
  from p0 st(1,2) a c n i p1 l p2 show ?thesis by blast
qed


end
